theory Spec2Isabelle
  imports Complex_Main
begin

section \<open>JavaScript values used by the worker\<close>

text \<open>
  A JavaScript string is modelled as a \<open>string\<close>; one \<open>char\<close> stands for one code unit
  (code units below 256 only).  A field of type \<open>string | null\<close> is a \<open>string option\<close>.
\<close>

text \<open>Truthiness of a \<open>string | null | undefined\<close> value: null, undefined and the empty string are falsy.\<close>

fun truthy :: "string option \<Rightarrow> bool" where
  "truthy None = False"
| "truthy (Some s) = (s \<noteq> [])"

text \<open>\<open>String.prototype.includes\<close>: the needle occurs somewhere as a contiguous substring.\<close>

fun starts_with :: "string \<Rightarrow> string \<Rightarrow> bool" where
  "starts_with [] s = True"
| "starts_with (p # ps) [] = False"
| "starts_with (p # ps) (c # cs) = (p = c \<and> starts_with ps cs)"

fun str_includes :: "string \<Rightarrow> string \<Rightarrow> bool" where
  "str_includes needle [] = (needle = [])"
| "str_includes needle (c # cs) = (starts_with needle (c # cs) \<or> str_includes needle cs)"

text \<open>
  White space of \<open>String.prototype.trim\<close> and of the regular-expression class \<open>\s\<close>, restricted to
  code units below 256: TAB, LF, VT, FF, CR, SPACE and NO-BREAK SPACE.
\<close>

definition is_space :: "char \<Rightarrow> bool" where
  "is_space c = (of_char c \<in> {9, 10, 11, 12, 13, 32, 160 :: nat})"

definition trim :: "string \<Rightarrow> string" where
  "trim s = rev (dropWhile is_space (rev (dropWhile is_space s)))"

text \<open>\<open>s.split(',')\<close> for a one-character separator: always at least one piece.\<close>

fun split_on :: "char \<Rightarrow> string \<Rightarrow> string list" where
  "split_on sep [] = [[]]"
| "split_on sep (c # cs) =
     (if c = sep then [] # split_on sep cs
      else (case split_on sep cs of
              [] \<Rightarrow> [[c]]
            | p # ps \<Rightarrow> (c # p) # ps))"

text \<open>\<open>s.substring(0, n)\<close> is \<open>take n s\<close>; \<open>xs.slice(0, n)\<close> is \<open>take n xs\<close>.\<close>

text \<open>
  Property names every plain object literal inherits from \<open>Object.prototype\<close>.  Reading
  \<open>obj[k]\<close> for such a \<open>k\<close> yields a function (or the prototype itself), which is truthy,
  even though \<open>obj\<close> has no own property \<open>k\<close>.
\<close>

definition inherited_key :: "string \<Rightarrow> bool" where
  "inherited_key k = (k \<in> set [''constructor'', ''__proto__'', ''hasOwnProperty'',
     ''isPrototypeOf'', ''propertyIsEnumerable'', ''toLocaleString'', ''toString'',
     ''valueOf'', ''__defineGetter__'', ''__defineSetter__'', ''__lookupGetter__'',
     ''__lookupSetter__''])"

section \<open>Data model\<close>

text \<open>The interface \<open>FeedbackEntry\<close>, one row of the table \<open>feedback\<close> of \<open>schema.sql\<close>.\<close>

record FeedbackEntry =
  fb_id :: nat
  fb_source :: string
  fb_text :: string
  fb_sentiment :: "string option"
  fb_themes :: "string option"
  fb_urgency :: "string option"
  fb_created_at :: string

section \<open>Action items (\<open>generateActionItems\<close>, index.ts)\<close>

text \<open>
  One constructor per template literal pushed by \<open>generateActionItems\<close>, in the order of the
  source, carrying the interpolated count.  \<open>item_text\<close> is the text after the leading emoji.
\<close>

datatype action_item =
    HighUrgencyAlert nat
  | StabilityCapacity nat
  | Prioritization nat
  | SentimentTrendingNegative
  | PerformanceAudit nat
  | DocsGap nat
  | NoCriticalIssues

definition digit_char :: "nat \<Rightarrow> char" where
  "digit_char n = ''0123456789'' ! (n mod 10)"

function show_nat :: "nat \<Rightarrow> string" where
  "show_nat n = (if n < 10 then [digit_char n] else show_nat (n div 10) @ [digit_char n])"
  by pat_completeness auto
termination
  by (relation "measure id") auto

declare show_nat.simps [simp del]

fun item_text :: "action_item \<Rightarrow> string" where
  "item_text (HighUrgencyAlert n) = show_nat n @ '' high-urgency items need immediate attention''"
| "item_text (StabilityCapacity n) =
     show_nat n @ '' bug reports - consider allocating sprint capacity for stability work''"
| "item_text (Prioritization n) =
     show_nat n @ '' feature requests - prioritize by customer impact and engineering effort''"
| "item_text SentimentTrendingNegative =
     ''Customer sentiment is trending negative - schedule customer interviews to understand root causes''"
| "item_text (PerformanceAudit n) =
     show_nat n @ '' performance complaints - run performance audit and set optimization goals''"
| "item_text (DocsGap n) =
     show_nat n @ '' docs gaps identified - update documentation and consider tutorial videos''"
| "item_text NoCriticalIssues =
     ''No critical issues detected - focus on feature development and user growth''"

text \<open>\<open>f.themes?.includes(tag)\<close>: undefined (falsy) for a null \<open>themes\<close>.\<close>

definition themes_includes :: "string \<Rightarrow> FeedbackEntry \<Rightarrow> bool" where
  "themes_includes tag f = (case fb_themes f of None \<Rightarrow> False | Some s \<Rightarrow> str_includes tag s)"

text \<open>
  \<open>positiveRatio < 0.5\<close> where \<open>positiveRatio = (feedback.length - negative) / feedback.length\<close>.
  For an empty list the quotient is \<open>0 / 0 = NaN\<close> and the comparison is false.  For a non-empty
  list the exact quotient is compared; the double-precision quotient gives the same answer
  (lemma \<open>js_div_below_half\<close> below).
\<close>

definition ratio_below_half :: "nat \<Rightarrow> nat \<Rightarrow> bool" where
  "ratio_below_half num den =
     (if den = 0 then False else (of_nat num / of_nat den :: rat) < 1 / 2)"

definition push_if :: "bool \<Rightarrow> 'a \<Rightarrow> 'a list \<Rightarrow> 'a list" where
  "push_if b x items = (if b then items @ [x] else items)"

definition generateActionItems :: "FeedbackEntry list \<Rightarrow> action_item list" where
  "generateActionItems feedback =
    (let items = [];
         highUrgency = length (filter (\<lambda>f. fb_urgency f = Some ''high'') feedback);
         items = push_if (highUrgency > 0) (HighUrgencyAlert highUrgency) items;
         bugs = length (filter (themes_includes ''bug'') feedback);
         items = push_if (bugs > 5) (StabilityCapacity bugs) items;
         featureRequests = length (filter (themes_includes ''feature-request'') feedback);
         items = push_if (featureRequests > 3) (Prioritization featureRequests) items;
         negative = length (filter (\<lambda>f. fb_sentiment f = Some ''negative'') feedback);
         items = push_if (ratio_below_half (length feedback - negative) (length feedback))
                   SentimentTrendingNegative items;
         performance = length (filter (themes_includes ''performance'') feedback);
         items = push_if (performance > 2) (PerformanceAudit performance) items;
         documentation = length (filter (themes_includes ''documentation'') feedback);
         items = push_if (documentation > 2) (DocsGap documentation) items;
         items = push_if (length items = 0) NoCriticalIssues items
     in items)"

text \<open>
  The list as a function of the counts the source takes.  \<open>mention_count tag\<close> is the number of
  entries whose \<open>themes\<close> string contains the text \<open>tag\<close> somewhere (the source's
  \<open>themes?.includes(tag)\<close>); \<open>non_negative_count\<close> is the number of entries whose sentiment is
  not \<open>negative\<close>.
\<close>

definition high_urgency_count :: "FeedbackEntry list \<Rightarrow> nat" where
  "high_urgency_count feedback = length (filter (\<lambda>f. fb_urgency f = Some ''high'') feedback)"

definition mention_count :: "string \<Rightarrow> FeedbackEntry list \<Rightarrow> nat" where
  "mention_count tag feedback = length (filter (themes_includes tag) feedback)"

definition non_negative_count :: "FeedbackEntry list \<Rightarrow> nat" where
  "non_negative_count feedback = length (filter (\<lambda>f. fb_sentiment f \<noteq> Some ''negative'') feedback)"

definition mention_items :: "FeedbackEntry list \<Rightarrow> action_item list" where
  "mention_items feedback =
     (if high_urgency_count feedback > 0 then [HighUrgencyAlert (high_urgency_count feedback)] else [])
   @ (if mention_count ''bug'' feedback > 5 then [StabilityCapacity (mention_count ''bug'' feedback)] else [])
   @ (if mention_count ''feature-request'' feedback > 3
      then [Prioritization (mention_count ''feature-request'' feedback)] else [])
   @ (if 2 * non_negative_count feedback < length feedback then [SentimentTrendingNegative] else [])
   @ (if mention_count ''performance'' feedback > 2
      then [PerformanceAudit (mention_count ''performance'' feedback)] else [])
   @ (if mention_count ''documentation'' feedback > 2
      then [DocsGap (mention_count ''documentation'' feedback)] else [])"

definition actionItems_by_mention :: "FeedbackEntry list \<Rightarrow> action_item list" where
  "actionItems_by_mention feedback =
     (if mention_items feedback = [] then [NoCriticalIssues] else mention_items feedback)"

lemma non_negative_count_eq:
  "non_negative_count feedback =
     length feedback - length (filter (\<lambda>f. fb_sentiment f = Some ''negative'') feedback)"
proof -
  have "length (filter (\<lambda>f. fb_sentiment f = Some ''negative'') feedback)
        + length (filter (\<lambda>f. fb_sentiment f \<noteq> Some ''negative'') feedback) = length feedback"
    using sum_length_filter_compl [of "\<lambda>f. fb_sentiment f = Some ''negative''" feedback]
    by simp
  then show ?thesis
    by (simp add: non_negative_count_def)
qed

lemma ratio_below_half_iff:
  "ratio_below_half num den \<longleftrightarrow> den \<noteq> 0 \<and> 2 * num < den"
proof (cases "den = 0")
  case True
  then show ?thesis by (simp add: ratio_below_half_def)
next
  case False
  then have pos: "(0::rat) < of_nat den" by simp
  have "(of_nat num / of_nat den :: rat) < 1 / 2 \<longleftrightarrow> (2 * of_nat num :: rat) < of_nat den"
    using pos by (simp add: field_simps)
  also have "\<dots> \<longleftrightarrow> 2 * num < den"
    by (metis of_nat_less_iff of_nat_mult of_nat_numeral)
  finally show ?thesis
    using False by (simp add: ratio_below_half_def)
qed

text \<open>
  The list returned by \<open>generateActionItems\<close> is the list of the items whose condition holds, in
  the order of the source, each count being a \<open>mention_count\<close>, and the single affirmation when
  no condition holds.
\<close>

lemma generateActionItems_by_mention:
  "generateActionItems feedback = actionItems_by_mention feedback"
proof -
  have neg: "2 * (length feedback - length (filter (\<lambda>f. fb_sentiment f = Some ''negative'') feedback))
               < length feedback
    \<longleftrightarrow> 2 * non_negative_count feedback < length feedback"
    by (simp add: non_negative_count_eq)
  show ?thesis
    unfolding generateActionItems_def actionItems_by_mention_def mention_items_def Let_def push_if_def
      ratio_below_half_iff high_urgency_count_def [symmetric] mention_count_def [symmetric] neg
    by auto
qed

section \<open>Plain objects used as dictionaries\<close>

text \<open>
  A \<open>Record<string, V>\<close> built from \<open>{}\<close> is an association list of its own properties in
  insertion order.  \<open>record_modify k init h\<close> is the source's pattern
  \<open>if (!obj[k]) obj[k] = init; <update obj[k] in place by h>\<close> for a key that is not inherited
  (the stored values are objects, hence truthy).
\<close>

definition record_modify :: "string \<Rightarrow> 'v \<Rightarrow> ('v \<Rightarrow> 'v) \<Rightarrow> (string \<times> 'v) list \<Rightarrow> (string \<times> 'v) list" where
  "record_modify k init h obj =
     (case map_of obj k of
        None \<Rightarrow> obj @ [(k, h init)]
      | Some v \<Rightarrow> map (\<lambda>(k', v'). if k' = k then (k', h v') else (k', v')) obj)"

text \<open>
  \<open>Object.entries\<close> lists the own properties: first the keys that are array indices (canonical
  decimal numerals below \<open>2^32 - 1\<close>) in ascending numeric order, then the other keys in
  insertion order.
\<close>

definition is_digit :: "char \<Rightarrow> bool" where
  "is_digit c = (48 \<le> (of_char c :: int) \<and> (of_char c :: int) \<le> 57)"

definition digits_value :: "string \<Rightarrow> int" where
  "digits_value s = foldl (\<lambda>n c. 10 * n + (of_char c - 48)) 0 s"

definition is_array_index :: "string \<Rightarrow> bool" where
  "is_array_index k =
     (k \<noteq> [] \<and> list_all is_digit k \<and> (k = ''0'' \<or> hd k \<noteq> CHR ''0'') \<and> digits_value k < 4294967295)"

definition object_entries :: "(string \<times> 'v) list \<Rightarrow> (string \<times> 'v) list" where
  "object_entries obj =
     sort_key (\<lambda>kv. digits_value (fst kv)) (filter (\<lambda>kv. is_array_index (fst kv)) obj)
     @ filter (\<lambda>kv. \<not> is_array_index (fst kv)) obj"

text \<open>
  \<open>n > c / 2\<close> on two counts; halving a count is exact in double precision (lemma
  \<open>js_div_two_exact\<close> below).
\<close>

definition more_than_half :: "nat \<Rightarrow> nat \<Rightarrow> bool" where
  "more_than_half n c = ((of_nat c :: rat) / 2 < of_nat n)"

text \<open>
  \<open>rows.sort((a, b) => b.count - a.count)\<close>: \<open>Array.prototype.sort\<close> is stable, so this is the
  stable sort by descending count.
\<close>

definition sort_by_count_desc :: "('r \<Rightarrow> nat) \<Rightarrow> 'r list \<Rightarrow> 'r list" where
  "sort_by_count_desc cnt rows = sort_key (\<lambda>r. - int (cnt r)) rows"

datatype js_error = TypeError | AiError | D1Error

text \<open>\<open>xs.forEach(body)\<close> over a state, where the body may throw.\<close>

fun forEach :: "('a \<Rightarrow> 's \<Rightarrow> js_error + 's) \<Rightarrow> 'a list \<Rightarrow> 's \<Rightarrow> js_error + 's" where
  "forEach body [] s = Inr s"
| "forEach body (x # xs) s =
     (case body x s of Inl e \<Rightarrow> Inl e | Inr s' \<Rightarrow> forEach body xs s')"

text \<open>\<open>f.themes.split(',').map(t => t.trim())\<close>, reached only for a truthy \<open>themes\<close>.\<close>

definition themeList :: "FeedbackEntry \<Rightarrow> string list" where
  "themeList f = (case fb_themes f of None \<Rightarrow> [] | Some s \<Rightarrow> map trim (split_on CHR '','' s))"

section \<open>Pain points (\<open>getPainPoints\<close>, index.ts)\<close>

datatype pain_data = PainData (pd_count: nat) (pd_urgency: "string list")

datatype PainPoint = PainPoint (pp_theme: string) (pp_count: nat) (pp_severity: string)

text \<open>
  The body of the inner \<open>forEach\<close>.  For an inherited key \<open>themes[theme]\<close> is truthy, no own
  property is created, and \<open>themes[theme].urgency\<close> is undefined: \<open>push\<close> on it throws a
  \<open>TypeError\<close> when \<open>f.urgency\<close> is truthy.
\<close>

definition pain_visit :: "FeedbackEntry \<Rightarrow> string \<Rightarrow> (string \<times> pain_data) list \<Rightarrow> js_error + (string \<times> pain_data) list" where
  "pain_visit f theme themes =
     (if inherited_key theme
      then (if truthy (fb_urgency f) then Inl TypeError else Inr themes)
      else Inr (record_modify theme (PainData 0 [])
                  (\<lambda>d. PainData (pd_count d + 1)
                         (case fb_urgency f of
                            None \<Rightarrow> pd_urgency d
                          | Some u \<Rightarrow> if u \<noteq> [] then pd_urgency d @ [u] else pd_urgency d))
                  themes))"

definition pain_row :: "string \<times> pain_data \<Rightarrow> PainPoint" where
  "pain_row kv =
     PainPoint (fst kv) (pd_count (snd kv))
       (if more_than_half (length (filter (\<lambda>u. u = ''high'') (pd_urgency (snd kv)))) (pd_count (snd kv))
        then ''high'' else ''medium'')"

definition getPainPoints :: "FeedbackEntry list \<Rightarrow> js_error + PainPoint list" where
  "getPainPoints feedback =
     (case forEach (\<lambda>f. forEach (pain_visit f) (themeList f))
             (filter (\<lambda>f. fb_sentiment f = Some ''negative'' \<and> truthy (fb_themes f)) feedback) []
      of Inl e \<Rightarrow> Inl e
       | Inr themes \<Rightarrow>
           Inr (take 5 (sort_by_count_desc pp_count (map pain_row (object_entries themes)))))"

section \<open>Theme breakdown (\<open>getThemeBreakdown\<close>, index.ts)\<close>

datatype theme_data = ThemeData (td_count: nat) (td_negative: nat)

datatype ThemeRow = ThemeRow (tr_theme: string) (tr_count: nat) (tr_sentiment: string)

text \<open>
  The body of the inner \<open>forEach\<close>.  For an inherited key the two increments land on the
  inherited object and \<open>themes\<close> gets no own property; nothing throws.
\<close>

definition theme_visit :: "FeedbackEntry \<Rightarrow> string \<Rightarrow> (string \<times> theme_data) list \<Rightarrow> (string \<times> theme_data) list" where
  "theme_visit f theme themes =
     (if inherited_key theme then themes
      else record_modify theme (ThemeData 0 0)
             (\<lambda>d. ThemeData (td_count d + 1)
                    (if fb_sentiment f = Some ''negative'' then td_negative d + 1 else td_negative d))
             themes)"

definition theme_row :: "string \<times> theme_data \<Rightarrow> ThemeRow" where
  "theme_row kv =
     ThemeRow (fst kv) (td_count (snd kv))
       (if more_than_half (td_negative (snd kv)) (td_count (snd kv)) then ''negative'' else ''positive'')"

definition getThemeBreakdown :: "FeedbackEntry list \<Rightarrow> ThemeRow list" where
  "getThemeBreakdown feedback =
     (let themes = fold (\<lambda>f themes. if truthy (fb_themes f) then fold (theme_visit f) (themeList f) themes
                                      else themes) feedback []
      in take 10 (sort_by_count_desc tr_count (map theme_row (object_entries themes))))"

section \<open>Sentiment score (\<open>calculateSentimentScore\<close>, index.ts)\<close>

text \<open>
  A finite JavaScript number is the rational it denotes.  \<open>fl\<close> rounds a rational to the nearest
  double (53-bit significand, ties to even); the exponent range is left unbounded, the
  quantities below lying between \<open>2^-1022\<close> and \<open>2^1023\<close> in magnitude.  \<open>ilog2 x\<close> is the
  exponent \<open>e\<close> with \<open>2^e \<le> |x| < 2^(e+1)\<close>.  Division and multiplication of doubles round
  the exact result once.
\<close>

definition pow2 :: "int \<Rightarrow> rat" where
  "pow2 e = (if 0 \<le> e then 2 ^ nat e else 1 / 2 ^ nat (- e))"

text \<open>The number of binary digits of a positive integer.\<close>

function bit_length :: "int \<Rightarrow> int" where
  "bit_length n = (if n \<le> 0 then 0 else 1 + bit_length (n div 2))"
  by pat_completeness auto
termination
  by (relation "measure nat") auto

declare bit_length.simps [simp del]

definition ilog2 :: "rat \<Rightarrow> int" where
  "ilog2 x =
     (let p = fst (quotient_of \<bar>x\<bar>); q = snd (quotient_of \<bar>x\<bar>);
          e = bit_length p - bit_length q
      in if pow2 e \<le> \<bar>x\<bar> then e else e - 1)"

definition round_half_even :: "rat \<Rightarrow> int" where
  "round_half_even x =
     (let n = \<lfloor>x\<rfloor>; d = x - of_int n
      in if d < 1 / 2 then n else if 1 / 2 < d then n + 1 else if even n then n else n + 1)"

definition fl :: "rat \<Rightarrow> rat" where
  "fl x = (if x = 0 then 0
           else (let u = pow2 (ilog2 x - 52) in of_int (round_half_even (x / u)) * u))"

definition js_div :: "rat \<Rightarrow> rat \<Rightarrow> rat" where
  "js_div a b = fl (a / b)"

definition js_mul :: "rat \<Rightarrow> rat \<Rightarrow> rat" where
  "js_mul a b = fl (a * b)"

text \<open>\<open>Math.round\<close>: the nearest integer, a tie going towards plus infinity.\<close>

definition Math_round :: "rat \<Rightarrow> int" where
  "Math_round x = \<lfloor>x + 1 / 2\<rfloor>"

text \<open>
  \<open>scores[f.sentiment] || 0\<close> for \<open>scores = {positive: 1, neutral: 0, negative: -1}\<close>.  For an
  inherited key the lookup yields a function and \<open>sum + function\<close> is a string: \<open>None\<close>.
\<close>

definition score :: "string option \<Rightarrow> int option" where
  "score s =
     (case s of
        None \<Rightarrow> Some 0
      | Some k \<Rightarrow>
          if k = ''positive'' then Some 1
          else if k = ''negative'' then Some (- 1)
          else if inherited_key k then None
          else Some 0)"

text \<open>
  The result is \<open>None\<close> for \<open>NaN\<close>: the sum became a string, or the list is empty (\<open>0 / 0\<close>).
\<close>

definition calculateSentimentScore :: "FeedbackEntry list \<Rightarrow> int option" where
  "calculateSentimentScore feedback =
     (let total = fold (\<lambda>f sum. case sum of
                                    None \<Rightarrow> None
                                  | Some n \<Rightarrow> (case score (fb_sentiment f) of
                                                None \<Rightarrow> None
                                              | Some k \<Rightarrow> Some (n + k)))
                    feedback (Some 0)
      in case total of
           None \<Rightarrow> None
         | Some t \<Rightarrow>
             if length feedback = 0 then None
             else Some (Math_round (js_mul (js_div (of_int t) (of_nat (length feedback))) 100)))"

section \<open>Insights (\<open>getInsights\<close>, index.ts)\<close>

text \<open>\<open>f.text.substring(0, 100) + '...'\<close>\<close>

definition preview :: "string \<Rightarrow> string" where
  "preview t = take 100 t @ ''...''"

datatype PriorityIssue =
  PriorityIssue (pi_text: string) (pi_source: string) (pi_themes: "string option") (pi_created_at: string)

datatype FeatureRequest =
  FeatureRequest (fr_text: string) (fr_source: string) (fr_sentiment: "string option")

datatype QuickWin =
  QuickWin (qw_text: string) (qw_themes: "string option") (qw_source: string)

record Insights =
  topPriorityIssues :: "PriorityIssue list"
  topFeatureRequests :: "FeatureRequest list"
  painPoints :: "PainPoint list"
  quickWins :: "QuickWin list"
  sentimentScore :: "int option"
  actionItems :: "action_item list"
  themeBreakdown :: "ThemeRow list"

text \<open>The object literal \<open>insights\<close>; building it throws when \<open>getPainPoints\<close> throws.\<close>

definition computeInsights :: "FeedbackEntry list \<Rightarrow> js_error + Insights" where
  "computeInsights feedback =
     (case getPainPoints feedback of
        Inl e \<Rightarrow> Inl e
      | Inr pains \<Rightarrow>
          Inr \<lparr> topPriorityIssues =
                  map (\<lambda>f. PriorityIssue (preview (fb_text f)) (fb_source f) (fb_themes f) (fb_created_at f))
                    (take 5 (filter (\<lambda>f. fb_urgency f = Some ''high'' \<and> fb_sentiment f = Some ''negative'')
                               feedback)),
                topFeatureRequests =
                  map (\<lambda>f. FeatureRequest (preview (fb_text f)) (fb_source f) (fb_sentiment f))
                    (take 5 (filter (themes_includes ''feature-request'') feedback)),
                painPoints = pains,
                quickWins =
                  map (\<lambda>f. QuickWin (preview (fb_text f)) (fb_themes f) (fb_source f))
                    (take 3 (filter (\<lambda>f. fb_sentiment f = Some ''positive'') feedback)),
                sentimentScore = calculateSentimentScore feedback,
                actionItems = generateActionItems feedback,
                themeBreakdown = getThemeBreakdown feedback \<rparr>)"

section \<open>Store, cache and responses\<close>

text \<open>
  The KV namespace \<open>CACHE\<close> maps a key to the cached JSON: the stats payload is kept as an
  opaque string, the insights payload as the structure it serialises.  The D1 table is the
  list of its rows in rowid order.
\<close>

datatype cached = CachedStats string | CachedInsights Insights

fun cached_truthy :: "cached option \<Rightarrow> bool" where
  "cached_truthy None = False"
| "cached_truthy (Some (CachedStats s)) = (s \<noteq> [])"
| "cached_truthy (Some (CachedInsights i)) = True"

record env =
  DB :: "FeedbackEntry list"
  CACHE :: "string \<Rightarrow> cached option"

definition cache_delete :: "string \<Rightarrow> env \<Rightarrow> env" where
  "cache_delete key e = e\<lparr>CACHE := (CACHE e)(key := None)\<rparr>"

definition cache_put :: "string \<Rightarrow> cached \<Rightarrow> env \<Rightarrow> env" where
  "cache_put key v e = e\<lparr>CACHE := (CACHE e)(key \<mapsto> v)\<rparr>"

datatype Analysis = Analysis (an_sentiment: string) (an_themes: string) (an_urgency: string)

datatype item_result = ItemOk nat | ItemFailed nat js_error

datatype body =
    ErrorBody string
  | EntryBody FeedbackEntry
  | AnalysisBody nat Analysis
  | BatchBody nat "(nat \<times> Analysis) list"
  | EmptyState string "Insights list"
  | InsightsBody Insights
  | CachedBody cached
  | NoUnanalyzedBody
  | BatchReport nat nat nat "item_result list"

datatype response = Response (status: nat) (payload: body)

text \<open>
  What the worker cannot decide: the answer of Workers AI to a prompt (\<open>None\<close> when the call
  rejects or the answer has no string \<open>response\<close>), which \<open>UPDATE\<close> statements D1 rejects (by row
  id), and the clock.  Of the store's failures only a rejected \<open>UPDATE\<close> is modelled.
\<close>

record world =
  ai_run :: "string \<Rightarrow> string option"
  update_fails :: "nat \<Rightarrow> bool"
  now :: string

text \<open>\<open>UPDATE feedback SET sentiment = ?, themes = ?, urgency = ? WHERE id = ?\<close>\<close>

definition db_update :: "nat \<Rightarrow> Analysis \<Rightarrow> FeedbackEntry list \<Rightarrow> FeedbackEntry list" where
  "db_update i a rows =
     map (\<lambda>f. if fb_id f = i
              then f\<lparr>fb_sentiment := Some (an_sentiment a), fb_themes := Some (an_themes a),
                     fb_urgency := Some (an_urgency a)\<rparr>
              else f) rows"

text \<open>
  \<open>INTEGER PRIMARY KEY AUTOINCREMENT\<close>: one more than the largest id ever used; the worker
  never deletes a row, so that is the largest id in the table.
\<close>

definition fresh_id :: "FeedbackEntry list \<Rightarrow> nat" where
  "fresh_id rows = Suc (fold max (map fb_id rows) 0)"

section \<open>Label extraction (\<open>analyzeWithAI\<close>, index.ts)\<close>

definition lower_char :: "char \<Rightarrow> char" where
  "lower_char c =
     (case map_of (zip ''ABCDEFGHIJKLMNOPQRSTUVWXYZ'' ''abcdefghijklmnopqrstuvwxyz'') c of
        None \<Rightarrow> c
      | Some l \<Rightarrow> l)"

definition toLowerCase :: "string \<Rightarrow> string" where
  "toLowerCase s = map lower_char s"

text \<open>
  A literal of a regular expression with the flag \<open>i\<close> matched at the start of \<open>s\<close>: the text
  it matched and the rest.
\<close>

definition match_literal_ci :: "string \<Rightarrow> string \<Rightarrow> (string \<times> string) option" where
  "match_literal_ci lit s =
     (if length lit \<le> length s \<and> toLowerCase (take (length lit) s) = toLowerCase lit
      then Some (take (length lit) s, drop (length lit) s) else None)"

text \<open>An alternation \<open>(a|b|c)\<close> of literals: the first alternative that matches wins.\<close>

fun match_alternatives_ci :: "string list \<Rightarrow> string \<Rightarrow> string option" where
  "match_alternatives_ci [] s = None"
| "match_alternatives_ci (a # alts) s =
     (case match_literal_ci a s of
        Some (m, rest) \<Rightarrow> Some m
      | None \<Rightarrow> match_alternatives_ci alts s)"

text \<open>
  \<open>/LABEL:\s*(a|b|c)/i\<close> at the start of \<open>s\<close>: after the label, \<open>\s*\<close> takes all the white space;
  taking less cannot help, since no alternative begins with white space.
\<close>

definition match_label_word :: "string \<Rightarrow> string list \<Rightarrow> string \<Rightarrow> string option" where
  "match_label_word label alts s =
     (case match_literal_ci label s of
        None \<Rightarrow> None
      | Some (m, rest) \<Rightarrow> match_alternatives_ci alts (dropWhile is_space rest))"

text \<open>
  \<open>/LABEL:\s*([^\n]+)/i\<close> at the start of \<open>s\<close>.  If a character follows the white space, the
  group runs from it to the end of its line.  If only white space follows the label, \<open>\s*\<close>
  backtracks to the last character that is not a line feed, and the group is that character.
\<close>

definition line_feed :: char where
  "line_feed = CHR 0x0A"

definition match_label_line :: "string \<Rightarrow> string \<Rightarrow> string option" where
  "match_label_line label s =
     (case match_literal_ci label s of
        None \<Rightarrow> None
      | Some (m, rest) \<Rightarrow>
          (case dropWhile is_space rest of
             c # cs \<Rightarrow> Some (takeWhile (\<lambda>x. x \<noteq> line_feed) (c # cs))
           | [] \<Rightarrow> (case dropWhile (\<lambda>x. x = line_feed) (rev rest) of
                      [] \<Rightarrow> None
                    | c # cs \<Rightarrow> Some [c])))"

text \<open>\<open>str.match(re)\<close> without the flag \<open>g\<close>: the leftmost start position that matches.\<close>

fun regex_search :: "(string \<Rightarrow> 'a option) \<Rightarrow> string \<Rightarrow> 'a option" where
  "regex_search m [] = m []"
| "regex_search m (c # cs) =
     (case m (c # cs) of
        Some r \<Rightarrow> Some r
      | None \<Rightarrow> regex_search m cs)"

definition combinedPrompt :: "string \<Rightarrow> string" where
  "combinedPrompt text_in =
     ''Analyze this customer feedback and provide sentiment, themes, and urgency.'' @ [line_feed, line_feed]
     @ ''Feedback: \"'' @ text_in @ ''\"'' @ [line_feed, line_feed]
     @ ''Format your response EXACTLY as:'' @ [line_feed]
     @ ''SENTIMENT: [positive/negative/neutral]'' @ [line_feed]
     @ ''THEMES: [up to 3 from: bug, feature-request, performance, ux, documentation, pricing, security, integration, mobile, accessibility, api, support]''
     @ [line_feed]
     @ ''URGENCY: [low/medium/high]'' @ [line_feed, line_feed]
     @ ''Your analysis:''"

text \<open>The body of the \<open>try\<close> block, after the call has returned \<open>response.response\<close>.\<close>

definition parse_analysis :: "string \<Rightarrow> Analysis" where
  "parse_analysis response =
     (let result = trim response;
          sentimentMatch = regex_search (match_label_word ''SENTIMENT:'' [''positive'', ''negative'', ''neutral'']) result;
          themesMatch = regex_search (match_label_line ''THEMES:'') result;
          urgencyMatch = regex_search (match_label_word ''URGENCY:'' [''low'', ''medium'', ''high'']) result;
          sentiment = (case sentimentMatch of Some g \<Rightarrow> toLowerCase g | None \<Rightarrow> ''neutral'');
          themes = (case themesMatch of Some g \<Rightarrow> trim g | None \<Rightarrow> ''general'');
          urgency = (case urgencyMatch of Some g \<Rightarrow> toLowerCase g | None \<Rightarrow> ''medium'')
      in Analysis
           (if sentiment \<in> set [''positive'', ''negative'', ''neutral''] then sentiment else ''neutral'')
           themes
           (if urgency \<in> set [''low'', ''medium'', ''high''] then urgency else ''medium''))"

text \<open>\<open>try { ... } catch (error) { return the defaults }\<close>\<close>

definition analyzeWithAI :: "world \<Rightarrow> string \<Rightarrow> Analysis" where
  "analyzeWithAI w text_in =
     (case ai_run w (combinedPrompt text_in) of
        Some response \<Rightarrow> parse_analysis response
      | None \<Rightarrow> Analysis ''neutral'' ''general'' ''medium'')"

section \<open>Request handlers (index.ts)\<close>

text \<open>
  A handler maps the environment to what it returns (\<open>Inl\<close>: it throws, and \<open>fetch\<close> answers 500)
  and the environment it leaves.  Response headers are not modelled.
\<close>

type_synonym outcome = "(js_error + response) \<times> env"

text \<open>The JSON body of a submission; a field that is missing is \<open>None\<close>.\<close>

record submission =
  sub_source :: "string option"
  sub_text :: "string option"

definition submitFeedback :: "world \<Rightarrow> submission \<Rightarrow> env \<Rightarrow> outcome" where
  "submitFeedback w body e =
     (if \<not> truthy (sub_source body) \<or> \<not> truthy (sub_text body)
      then (Inr (Response 400 (ErrorBody ''Missing required fields: source and text'')), e)
      else (let result = \<lparr> fb_id = fresh_id (DB e),
                            fb_source = the (sub_source body),
                            fb_text = the (sub_text body),
                            fb_sentiment = None, fb_themes = None, fb_urgency = None,
                            fb_created_at = now w \<rparr>;
                e = e\<lparr>DB := DB e @ [result]\<rparr>;
                e = cache_delete ''stats'' e
            in (Inr (Response 201 (EntryBody result)), e)))"

definition analyzeFeedback :: "world \<Rightarrow> nat \<Rightarrow> env \<Rightarrow> outcome" where
  "analyzeFeedback w i e =
     (case find (\<lambda>f. fb_id f = i) (DB e) of
        None \<Rightarrow> (Inr (Response 404 (ErrorBody ''Feedback not found'')), e)
      | Some feedback \<Rightarrow>
          (let analysis = analyzeWithAI w (fb_text feedback)
           in if update_fails w i then (Inl D1Error, e)
              else (let e = e\<lparr>DB := db_update i analysis (DB e)\<rparr>;
                        e = cache_delete ''stats'' e
                    in (Inr (Response 200 (AnalysisBody i analysis)), e))))"

text \<open>
  One batch of \<open>analyzeAllFeedback\<close>: every async callback of \<open>batch.map\<close> is started, and
  \<open>Promise.all\<close> rejects if one of them rejects.  The model runs the callbacks in list order,
  each to its end (each writes only its own row).  The result is the list of fulfilled values
  together with the flag that some callback rejected.
\<close>

fun run_batch :: "world \<Rightarrow> FeedbackEntry list \<Rightarrow> env \<Rightarrow> ((nat \<times> Analysis) list \<times> bool) \<times> env" where
  "run_batch w [] e = (([], False), e)"
| "run_batch w (feedback # batch) e =
     (let analysis = analyzeWithAI w (fb_text feedback)
      in if update_fails w (fb_id feedback)
         then (case run_batch w batch e of ((rs, rejected), e') \<Rightarrow> ((rs, True), e'))
         else (case run_batch w batch (e\<lparr>DB := db_update (fb_id feedback) analysis (DB e)\<rparr>) of
                 ((rs, rejected), e') \<Rightarrow> (((fb_id feedback, analysis) # rs, rejected), e')))"

text \<open>
  The loop \<open>for (let i = 0; i < results.length; i += batchSize)\<close> over
  \<open>results.slice(i, i + batchSize)\<close>, written on the rows from \<open>i\<close> on.  \<open>Inl\<close>: the
  \<open>await Promise.all\<close> of some batch threw.
\<close>

function batch_loop :: "world \<Rightarrow> nat \<Rightarrow> FeedbackEntry list \<Rightarrow> (nat \<times> Analysis) list \<Rightarrow> env
                         \<Rightarrow> (js_error + (nat \<times> Analysis) list) \<times> env" where
  "batch_loop w batchSize results analyzed e =
     (if results = [] \<or> batchSize = 0 then (Inr analyzed, e)
      else (case run_batch w (take batchSize results) e of
              ((batchResults, rejected), e') \<Rightarrow>
                if rejected then (Inl D1Error, e')
                else batch_loop w batchSize (drop batchSize results) (analyzed @ batchResults) e'))"
  by pat_completeness auto
termination
  by (relation "measure (\<lambda>(w, batchSize, results, analyzed, e). length results)") auto

declare batch_loop.simps [simp del]

definition analyzeAllFeedback :: "world \<Rightarrow> env \<Rightarrow> outcome" where
  "analyzeAllFeedback w e =
     (let results = take 50 (filter (\<lambda>f. fb_sentiment f = None) (DB e))
      in case batch_loop w 5 results [] e of
           (Inl err, e') \<Rightarrow> (Inl err, e')
         | (Inr analyzed, e') \<Rightarrow>
             (let e' = cache_delete ''stats'' e';
                  e' = cache_delete ''insights'' e'
              in (Inr (Response 200 (BatchBody (length analyzed) analyzed)), e')))"

text \<open>
  \<open>SELECT * FROM feedback WHERE sentiment IS NOT NULL ORDER BY created_at DESC\<close>, answered by a
  backward scan of the index on \<open>created_at\<close>: rows with equal \<open>created_at\<close> come in descending
  rowid order.  \<open>insert_desc f gs\<close> puts a row \<open>f\<close> that precedes the rows \<open>gs\<close> in the table
  behind every row of \<open>gs\<close> that is not older than \<open>f\<close>.
\<close>

fun insert_desc :: "FeedbackEntry \<Rightarrow> FeedbackEntry list \<Rightarrow> FeedbackEntry list" where
  "insert_desc f [] = [f]"
| "insert_desc f (g # gs) =
     (if lexordp (<) (map (of_char :: char \<Rightarrow> nat) (fb_created_at g)) (map of_char (fb_created_at f))
      then f # g # gs else g # insert_desc f gs)"

definition analyzed_rows :: "FeedbackEntry list \<Rightarrow> FeedbackEntry list" where
  "analyzed_rows rows = foldr insert_desc (filter (\<lambda>f. fb_sentiment f \<noteq> None) rows) []"

definition getInsights :: "env \<Rightarrow> outcome" where
  "getInsights e =
     (if cached_truthy (CACHE e ''insights'')
      then (Inr (Response 200 (CachedBody (the (CACHE e ''insights'')))), e)
      else (let feedback = analyzed_rows (DB e)
            in if length feedback = 0
               then (Inr (Response 200
                       (EmptyState ''No analyzed feedback yet. Click \"Analyze All Feedback\" first.'' [])), e)
               else (case computeInsights feedback of
                       Inl err \<Rightarrow> (Inl err, e)
                     | Inr insights \<Rightarrow>
                         (Inr (Response 200 (InsightsBody insights)),
                          cache_put ''insights'' (CachedInsights insights) e))))"

section \<open>The second worker (src/index.ts)\<close>

text \<open>
  The repository holds a second worker, \<open>src/index.ts\<close>, with handlers of the same names; its
  definitions carry the suffix \<open>_src\<close>.  It uses the urgency scale urgent/normal/low, has no
  \<open>try\<close> around the AI call, and catches failures per item in the batch.
\<close>

definition prompt_src :: "string \<Rightarrow> string" where
  "prompt_src text_in =
     ''Analyze the following user feedback and provide:'' @ [line_feed]
     @ ''1. Sentiment (positive, negative, or neutral)'' @ [line_feed]
     @ ''2. Main themes (comma-separated keywords, max 5)'' @ [line_feed]
     @ ''3. Urgency level (urgent, normal, or low)'' @ [line_feed, line_feed]
     @ ''Feedback: \"'' @ text_in @ ''\"'' @ [line_feed, line_feed]
     @ ''Respond in this exact format:'' @ [line_feed]
     @ ''Sentiment: [sentiment]'' @ [line_feed]
     @ ''Themes: [theme1, theme2, theme3]'' @ [line_feed]
     @ ''Urgency: [urgency]''"

text \<open>\<open>line.split(':')[1]\<close>; \<open>undefined\<close> (and then a \<open>TypeError\<close> on \<open>.trim()\<close>) if there is no second piece.\<close>

definition second_piece :: "string \<Rightarrow> js_error + string" where
  "second_piece line = (case split_on CHR '':'' line of a # b # rest \<Rightarrow> Inr b | _ \<Rightarrow> Inl TypeError)"

text \<open>The body of \<open>for (const line of lines)\<close> on the triple (sentiment, themes, urgency).\<close>

definition parse_line_src :: "string \<Rightarrow> string \<times> string \<times> string \<Rightarrow> js_error + string \<times> string \<times> string" where
  "parse_line_src line st =
     (case st of (sentiment, themes, urgency) \<Rightarrow>
        if starts_with ''sentiment:'' (toLowerCase line)
        then (case second_piece line of Inl err \<Rightarrow> Inl err
              | Inr p \<Rightarrow> Inr (toLowerCase (trim p), themes, urgency))
        else if starts_with ''themes:'' (toLowerCase line)
        then (case second_piece line of Inl err \<Rightarrow> Inl err
              | Inr p \<Rightarrow> Inr (sentiment, trim p, urgency))
        else if starts_with ''urgency:'' (toLowerCase line)
        then (case second_piece line of Inl err \<Rightarrow> Inl err
              | Inr p \<Rightarrow> Inr (sentiment, themes, toLowerCase (trim p)))
        else Inr st)"

definition analyzeWithAI_src :: "world \<Rightarrow> string \<Rightarrow> js_error + Analysis" where
  "analyzeWithAI_src w text_in =
     (case ai_run w (prompt_src text_in) of
        None \<Rightarrow> Inl AiError
      | Some response \<Rightarrow>
          (let lines = filter (\<lambda>line. trim line \<noteq> []) (split_on line_feed response)
           in case forEach parse_line_src lines (''neutral'', [], ''normal'') of
                Inl err \<Rightarrow> Inl err
              | Inr (sentiment, themes, urgency) \<Rightarrow>
                  Inr (Analysis
                         (if sentiment \<notin> set [''positive'', ''negative'', ''neutral''] then ''neutral'' else sentiment)
                         themes
                         (if urgency \<notin> set [''urgent'', ''normal'', ''low''] then ''normal'' else urgency))))"

text \<open>The async callback of \<open>batch.map\<close> with its \<open>try\<close>/\<open>catch\<close>: it never rejects.\<close>

definition analyze_item_src :: "world \<Rightarrow> FeedbackEntry \<Rightarrow> env \<Rightarrow> item_result \<times> env" where
  "analyze_item_src w feedback e =
     (case analyzeWithAI_src w (fb_text feedback) of
        Inl err \<Rightarrow> (ItemFailed (fb_id feedback) err, e)
      | Inr analysis \<Rightarrow>
          if update_fails w (fb_id feedback) then (ItemFailed (fb_id feedback) D1Error, e)
          else (ItemOk (fb_id feedback), e\<lparr>DB := db_update (fb_id feedback) analysis (DB e)\<rparr>))"

fun run_batch_src :: "world \<Rightarrow> FeedbackEntry list \<Rightarrow> env \<Rightarrow> item_result list \<times> env" where
  "run_batch_src w [] e = ([], e)"
| "run_batch_src w (feedback # batch) e =
     (case analyze_item_src w feedback e of
        (r, e') \<Rightarrow> (case run_batch_src w batch e' of (rs, e'') \<Rightarrow> (r # rs, e'')))"

function batch_loop_src :: "world \<Rightarrow> nat \<Rightarrow> FeedbackEntry list \<Rightarrow> item_result list \<Rightarrow> env
                             \<Rightarrow> item_result list \<times> env" where
  "batch_loop_src w batchSize unanalyzed results e =
     (if unanalyzed = [] \<or> batchSize = 0 then (results, e)
      else (case run_batch_src w (take batchSize unanalyzed) e of
              (batchResults, e') \<Rightarrow>
                batch_loop_src w batchSize (drop batchSize unanalyzed) (results @ batchResults) e'))"
  by pat_completeness auto
termination
  by (relation "measure (\<lambda>(w, batchSize, unanalyzed, results, e). length unanalyzed)") auto

declare batch_loop_src.simps [simp del]

fun item_success :: "item_result \<Rightarrow> bool" where
  "item_success (ItemOk i) = True"
| "item_success (ItemFailed i err) = False"

fun item_id :: "item_result \<Rightarrow> nat" where
  "item_id (ItemOk i) = i"
| "item_id (ItemFailed i err) = i"

definition analyzeAllFeedback_src :: "world \<Rightarrow> env \<Rightarrow> outcome" where
  "analyzeAllFeedback_src w e =
     (let unanalyzed = take 50 (filter (\<lambda>f. fb_sentiment f = None) (DB e))
      in if length unanalyzed = 0 then (Inr (Response 200 NoUnanalyzedBody), e)
         else (case batch_loop_src w 5 unanalyzed [] e of
                 (results, e') \<Rightarrow>
                   (Inr (Response 200
                           (BatchReport (length results)
                              (length (filter item_success results))
                              (length (filter (\<lambda>r. \<not> item_success r) results))
                              results)),
                    cache_delete ''stats'' e')))"

text \<open>
  \<open>submitFeedback\<close> of the second worker binds \<open>body.sentiment || null\<close> and its two siblings
  into the \<open>INSERT\<close>.
\<close>

record submission_src = submission +
  sub_sentiment :: "string option"
  sub_themes :: "string option"
  sub_urgency :: "string option"

definition or_null :: "string option \<Rightarrow> string option" where
  "or_null v = (if truthy v then v else None)"

definition submitFeedback_src :: "world \<Rightarrow> submission_src \<Rightarrow> env \<Rightarrow> outcome" where
  "submitFeedback_src w body e =
     (if \<not> truthy (sub_source body) \<or> \<not> truthy (sub_text body)
      then (Inr (Response 400 (ErrorBody ''Missing required fields: source and text'')), e)
      else (let result = \<lparr> fb_id = fresh_id (DB e),
                            fb_source = the (sub_source body),
                            fb_text = the (sub_text body),
                            fb_sentiment = or_null (sub_sentiment body),
                            fb_themes = or_null (sub_themes body),
                            fb_urgency = or_null (sub_urgency body),
                            fb_created_at = now w \<rparr>;
                e = e\<lparr>DB := DB e @ [result]\<rparr>;
                e = cache_delete ''stats'' e
            in (Inr (Response 201 (EntryBody result)), e)))"

section \<open>Concrete inputs\<close>

definition entry :: "nat \<Rightarrow> string \<Rightarrow> string option \<Rightarrow> string option \<Rightarrow> string option \<Rightarrow> FeedbackEntry" where
  "entry i t s th u =
     \<lparr> fb_id = i, fb_source = ''Email'', fb_text = t, fb_sentiment = s, fb_themes = th,
       fb_urgency = u, fb_created_at = ''2026-01-05 10:00:00'' \<rparr>"

definition no_insights :: Insights where
  "no_insights =
     \<lparr> topPriorityIssues = [], topFeatureRequests = [], painPoints = [], quickWins = [],
       sentimentScore = Some 0, actionItems = [NoCriticalIssues], themeBreakdown = [] \<rparr>"

text \<open>A cache holding both artifacts.\<close>

definition warm_cache :: "string \<Rightarrow> cached option" where
  "warm_cache = (\<lambda>k. None)(''stats'' \<mapsto> CachedStats ''{}'', ''insights'' \<mapsto> CachedInsights no_insights)"

text \<open>An AI that always fails, and a store that rejects the \<open>UPDATE\<close> of the rows in \<open>bad\<close>.\<close>

definition failing_world :: "nat list \<Rightarrow> world" where
  "failing_world bad = \<lparr> ai_run = (\<lambda>p. None), update_fails = (\<lambda>i. i \<in> set bad), now = ''2026-01-05 10:00:00'' \<rparr>"

definition two_row_env :: env where
  "two_row_env = \<lparr> DB = [entry 1 ''slow page'' None None None, entry 2 ''love it'' None None None],
                    CACHE = warm_cache \<rparr>"

section \<open>Cache invalidation on writes\<close>

lemma cache_delete_other:
  "k \<noteq> key \<Longrightarrow> CACHE (cache_delete key e) k = CACHE e k"
  by (simp add: cache_delete_def)

lemma cache_delete_same:
  "CACHE (cache_delete key e) key = None"
  by (simp add: cache_delete_def)

lemma submitFeedback_cache:
  "truthy (sub_source body) \<Longrightarrow> truthy (sub_text body) \<Longrightarrow>
   CACHE (snd (submitFeedback w body e)) = (CACHE e)(''stats'' := None)"
  by (simp add: submitFeedback_def cache_delete_def Let_def)

lemma analyzeFeedback_cache:
  "fst (analyzeFeedback w i e) = Inr (Response 200 b) \<Longrightarrow>
   CACHE (snd (analyzeFeedback w i e)) = (CACHE e)(''stats'' := None)"
  by (auto simp: analyzeFeedback_def cache_delete_def Let_def split: option.splits if_splits)

lemma analyzeAllFeedback_cache:
  "fst (analyzeAllFeedback w e) = Inr r \<Longrightarrow>
   CACHE (snd (analyzeAllFeedback w e)) ''stats'' = None \<and>
   CACHE (snd (analyzeAllFeedback w e)) ''insights'' = None"
  by (auto simp: analyzeAllFeedback_def cache_delete_def Let_def split: prod.splits sum.splits)

text \<open>
  C1.  Re-analysing the single row 1 while both artifacts are cached: the handler answers
  200 and deletes \<open>stats\<close>, but the cached \<open>insights\<close> survive the write.
\<close>

theorem analyzeFeedback_keeps_insights:
  "fst (analyzeFeedback (failing_world []) 1 two_row_env)
     = Inr (Response 200 (AnalysisBody 1 (Analysis ''neutral'' ''general'' ''medium'')))
   \<and> CACHE (snd (analyzeFeedback (failing_world []) 1 two_row_env)) ''stats'' = None
   \<and> CACHE (snd (analyzeFeedback (failing_world []) 1 two_row_env)) ''insights''
       = Some (CachedInsights no_insights)"
  by (simp add: analyzeFeedback_def analyzeWithAI_def failing_world_def two_row_env_def entry_def
      warm_cache_def cache_delete_def Let_def)

lemma submitFeedback_keeps_insights:
  "CACHE (snd (submitFeedback w body e)) ''insights'' = CACHE e ''insights''"
  by (simp add: submitFeedback_def cache_delete_def Let_def)

section \<open>Submitting feedback\<close>

lemma fold_max_ge_init: "(a::nat) \<le> fold max xs a"
  by (induction xs arbitrary: a) (auto intro: order_trans [OF max.cobounded2])

lemma fold_max_ge_member: "(x::nat) \<in> set xs \<Longrightarrow> x \<le> fold max xs a"
proof (induction xs arbitrary: a)
  case Nil
  then show ?case by simp
next
  case (Cons y ys)
  show ?case
  proof (cases "x = y")
    case True
    have "x \<le> max y a" using True by simp
    also have "\<dots> \<le> fold max ys (max y a)" by (rule fold_max_ge_init)
    finally show ?thesis by simp
  next
    case False
    with Cons.prems have "x \<in> set ys" by simp
    then show ?thesis using Cons.IH by simp
  qed
qed

lemma fresh_id_fresh: "fresh_id rows \<notin> fb_id ` set rows"
proof
  assume "fresh_id rows \<in> fb_id ` set rows"
  then have "fresh_id rows \<in> set (map fb_id rows)" by simp
  then have "fresh_id rows \<le> fold max (map fb_id rows) 0" by (rule fold_max_ge_member)
  then show False by (simp add: fresh_id_def)
qed

text \<open>
  \<open>submitFeedback\<close> of index.ts.  A submission whose source or text is empty (or missing) is
  answered 400 and leaves the environment, hence the store, as it was.  A submission with both
  fields non-empty is answered 201 with the inserted row: its id is not the id of any row
  already stored, its three labels are null, and the store is the old store with that row
  appended.
\<close>

lemma submitFeedback_index_ts:
  "(\<not> truthy (sub_source body) \<or> \<not> truthy (sub_text body) \<longrightarrow>
      submitFeedback w body e
        = (Inr (Response 400 (ErrorBody ''Missing required fields: source and text'')), e))
   \<and> (truthy (sub_source body) \<and> truthy (sub_text body) \<longrightarrow>
        (\<exists>row. fst (submitFeedback w body e) = Inr (Response 201 (EntryBody row))
           \<and> DB (snd (submitFeedback w body e)) = DB e @ [row]
           \<and> fb_id row \<notin> fb_id ` set (DB e)
           \<and> Some (fb_source row) = sub_source body \<and> Some (fb_text row) = sub_text body
           \<and> fb_sentiment row = None \<and> fb_themes row = None \<and> fb_urgency row = None))"
proof (intro conjI impI)
  assume "\<not> truthy (sub_source body) \<or> \<not> truthy (sub_text body)"
  then show "submitFeedback w body e
        = (Inr (Response 400 (ErrorBody ''Missing required fields: source and text'')), e)"
    by (auto simp: submitFeedback_def)
next
  assume ok: "truthy (sub_source body) \<and> truthy (sub_text body)"
  then obtain s t where st: "sub_source body = Some s" "sub_text body = Some t"
    by (cases "sub_source body"; cases "sub_text body") auto
  let ?row = "\<lparr> fb_id = fresh_id (DB e), fb_source = s, fb_text = t, fb_sentiment = None,
                 fb_themes = None, fb_urgency = None, fb_created_at = now w \<rparr>"
  have "fst (submitFeedback w body e) = Inr (Response 201 (EntryBody ?row))"
    using ok st by (simp add: submitFeedback_def Let_def)
  moreover have "DB (snd (submitFeedback w body e)) = DB e @ [?row]"
    using ok st by (simp add: submitFeedback_def Let_def cache_delete_def)
  moreover have "fb_id ?row \<notin> fb_id ` set (DB e)"
    using fresh_id_fresh [of "DB e"] by simp
  ultimately show "\<exists>row. fst (submitFeedback w body e) = Inr (Response 201 (EntryBody row))
           \<and> DB (snd (submitFeedback w body e)) = DB e @ [row]
           \<and> fb_id row \<notin> fb_id ` set (DB e)
           \<and> Some (fb_source row) = sub_source body \<and> Some (fb_text row) = sub_text body
           \<and> fb_sentiment row = None \<and> fb_themes row = None \<and> fb_urgency row = None"
    using st by (intro exI [of _ ?row]) simp
qed

lemma submitFeedback_index_ts_two_rows:
  "submitFeedback (failing_world []) \<lparr>sub_source = Some '''', sub_text = Some ''x''\<rparr> two_row_env
     = (Inr (Response 400 (ErrorBody ''Missing required fields: source and text'')), two_row_env)
   \<and> (\<exists>row. fst (submitFeedback (failing_world []) \<lparr>sub_source = Some ''Email'', sub_text = Some ''x''\<rparr> two_row_env)
              = Inr (Response 201 (EntryBody row))
         \<and> fb_id row \<notin> {1, 2} \<and> fb_sentiment row = None)"
proof -
  have bad: "\<not> truthy (sub_source \<lparr>sub_source = Some '''', sub_text = Some ''x''\<rparr>)"
    by simp
  have good: "truthy (sub_source \<lparr>sub_source = Some ''Email'', sub_text = Some ''x''\<rparr>)
              \<and> truthy (sub_text \<lparr>sub_source = Some ''Email'', sub_text = Some ''x''\<rparr>)"
    by simp
  have ids: "fb_id ` set (DB two_row_env) = {1, 2}"
    by (auto simp: two_row_env_def entry_def)
  show ?thesis
    using submitFeedback_index_ts
            [of "\<lparr>sub_source = Some '''', sub_text = Some ''x''\<rparr>" "failing_world []" two_row_env]
          submitFeedback_index_ts
            [of "\<lparr>sub_source = Some ''Email'', sub_text = Some ''x''\<rparr>" "failing_world []" two_row_env]
          bad good ids
    by auto
qed

lemma submitFeedback_src_labels:
  "truthy (sub_source body) \<Longrightarrow> truthy (sub_text body) \<Longrightarrow>
   \<exists>row. fst (submitFeedback_src w body e) = Inr (Response 201 (EntryBody row))
      \<and> fb_sentiment row = or_null (sub_sentiment body)
      \<and> fb_id row \<notin> fb_id ` set (DB e)"
  using fresh_id_fresh [of "DB e"] by (simp add: submitFeedback_src_def Let_def)

section \<open>The empty state of the insights\<close>

lemma insert_desc_not_Nil: "insert_desc f gs \<noteq> []"
  by (cases gs) auto

lemma set_insert_desc: "set (insert_desc f gs) = insert f (set gs)"
  by (induction gs) auto

lemma set_analyzed_rows: "set (analyzed_rows rows) = {f \<in> set rows. fb_sentiment f \<noteq> None}"
proof -
  have "set (foldr insert_desc xs []) = set xs" for xs
    by (induction xs) (auto simp: set_insert_desc)
  then show ?thesis by (simp add: analyzed_rows_def)
qed

lemma analyzed_rows_Nil_iff:
  "analyzed_rows rows = [] \<longleftrightarrow> (\<forall>f\<in>set rows. fb_sentiment f = None)"
proof -
  have "analyzed_rows rows = [] \<longleftrightarrow> set (analyzed_rows rows) = {}" by simp
  then show ?thesis
    by (auto simp: set_analyzed_rows)
qed

text \<open>
  On a cache miss over a store without analyzed rows, \<open>getInsights\<close> answers with the empty
  state \<open>{message, insights: []}\<close>, not with an \<open>Insights\<close> structure, and leaves store and
  cache as they were (nothing is computed or cached).
\<close>

lemma getInsights_miss_empty_state:
  assumes "\<not> cached_truthy (CACHE e ''insights'')"
    and "\<forall>f\<in>set (DB e). fb_sentiment f = None"
  shows "getInsights e
           = (Inr (Response 200
                (EmptyState ''No analyzed feedback yet. Click \"Analyze All Feedback\" first.'' [])), e)"
proof -
  have "analyzed_rows (DB e) = []"
    using assms(2) by (simp add: analyzed_rows_Nil_iff)
  then show ?thesis
    using assms(1) by (simp add: getInsights_def)
qed

definition cold_env :: env where
  "cold_env = \<lparr> DB = [entry 1 ''slow page'' None None None, entry 2 ''love it'' None None None],
                 CACHE = (\<lambda>k. None) \<rparr>"

lemma getInsights_cold_env:
  "getInsights cold_env
     = (Inr (Response 200
          (EmptyState ''No analyzed feedback yet. Click \"Analyze All Feedback\" first.'' [])), cold_env)"
proof -
  have miss: "\<not> cached_truthy (CACHE cold_env ''insights'')"
    by (simp add: cold_env_def)
  have none: "\<forall>f\<in>set (DB cold_env). fb_sentiment f = None"
    by (simp add: cold_env_def entry_def)
  show ?thesis
    by (rule getInsights_miss_empty_state [OF miss none])
qed

lemma getInsights_computed_not_empty_state:
  assumes "\<not> cached_truthy (CACHE e ''insights'')"
    and "f \<in> set (DB e)" and "fb_sentiment f \<noteq> None"
  shows "\<forall>m xs. fst (getInsights e) \<noteq> Inr (Response 200 (EmptyState m xs))"
proof -
  have "f \<in> set (analyzed_rows (DB e))"
    using assms(2,3) by (simp add: set_analyzed_rows)
  then have "analyzed_rows (DB e) \<noteq> []" by auto
  then show ?thesis
    using assms(1) by (auto simp: getInsights_def Let_def split: sum.splits)
qed

section \<open>Text previews\<close>





definition three_entries :: "FeedbackEntry list" where
  "three_entries =
     [entry 1 ''checkout crashes'' (Some ''negative'') (Some ''bug'') (Some ''high''),
      entry 2 ''login crashes'' (Some ''negative'') (Some ''bug'') (Some ''high''),
      entry 3 ''nice ui'' (Some ''positive'') (Some ''ux'') (Some ''low'')]"

lemma getPainPoints_three_entries:
  "getPainPoints three_entries = Inr [PainPoint ''bug'' 2 ''high'']"
  by code_simp


section \<open>Batch analysis and a rejected \<open>UPDATE\<close>\<close>

definition seven_row_env :: env where
  "seven_row_env =
     \<lparr> DB = map (\<lambda>i. entry i ''slow page'' None None None) [1, 2, 3, 4, 5, 6, 7],
       CACHE = warm_cache \<rparr>"

text \<open>
  C2.  Seven unanalyzed rows, the \<open>UPDATE\<close> of row 2 rejected.  \<open>analyzeAllFeedback\<close> of index.ts
  throws: no result list is returned, the rows 6 and 7 of the second batch stay unanalyzed and
  the cache keeps both artifacts.
\<close>

theorem analyzeAllFeedback_aborts_on_rejected_update:
  "fst (analyzeAllFeedback (failing_world [2]) seven_row_env) = Inl D1Error
   \<and> map fb_sentiment (drop 5 (DB (snd (analyzeAllFeedback (failing_world [2]) seven_row_env))))
       = [None, None]
   \<and> CACHE (snd (analyzeAllFeedback (failing_world [2]) seven_row_env)) ''stats''
       = Some (CachedStats ''{}'')
   \<and> CACHE (snd (analyzeAllFeedback (failing_world [2]) seven_row_env)) ''insights''
       = Some (CachedInsights no_insights)"
  by code_simp

text \<open>
  The second worker on the same input: the failure of row 2 is one entry of the result
  list, the six other rows are written and the handler answers 200.
\<close>

lemma analyzeAllFeedback_src_same_input:
  "fst (analyzeAllFeedback_src
          \<lparr> ai_run = (\<lambda>p. Some ''Sentiment: negative''), update_fails = (\<lambda>i. i = 2), now = [] \<rparr>
          seven_row_env)
     = Inr (Response 200 (BatchReport 7 6 1
         [ItemOk 1, ItemFailed 2 D1Error, ItemOk 3, ItemOk 4, ItemOk 5, ItemOk 6, ItemOk 7]))
   \<and> map fb_sentiment (DB (snd (analyzeAllFeedback_src
          \<lparr> ai_run = (\<lambda>p. Some ''Sentiment: negative''), update_fails = (\<lambda>i. i = 2), now = [] \<rparr>
          seven_row_env)))
       = [Some ''negative'', None, Some ''negative'', Some ''negative'', Some ''negative'',
          Some ''negative'', Some ''negative'']"
  by code_simp

lemma run_batch_src_ids:
  "map item_id (fst (run_batch_src w batch e)) = map fb_id batch"
proof (induction batch arbitrary: e)
  case Nil
  show ?case by simp
next
  case (Cons feedback batch)
  obtain r e' where a: "analyze_item_src w feedback e = (r, e')"
    by (cases "analyze_item_src w feedback e")
  obtain rs e'' where b: "run_batch_src w batch e' = (rs, e'')"
    by (cases "run_batch_src w batch e'")
  have "item_id r = fb_id feedback"
    using a by (auto simp: analyze_item_src_def split: sum.splits if_splits)
  moreover have "map item_id rs = map fb_id batch"
    using Cons.IH [of e'] b by simp
  ultimately show ?case
    using a b by simp
qed

lemma batch_loop_src_ids:
  "0 < n \<Longrightarrow>
   map item_id (fst (batch_loop_src w n rows acc e)) = map item_id acc @ map fb_id rows"
proof (induction w n rows acc e rule: batch_loop_src.induct)
  case (1 w batchSize unanalyzed results e)
  show ?case
  proof (cases "unanalyzed = []")
    case True
    then show ?thesis by (simp add: batch_loop_src.simps)
  next
    case False
    obtain rs e' where rb: "run_batch_src w (take batchSize unanalyzed) e = (rs, e')"
      by (cases "run_batch_src w (take batchSize unanalyzed) e")
    have ids: "map item_id rs = map fb_id (take batchSize unanalyzed)"
      using run_batch_src_ids [of w "take batchSize unanalyzed" e] rb by simp
    have nz: "\<not> (unanalyzed = [] \<or> batchSize = 0)"
      using False "1.prems" by simp
    have "map item_id (fst (batch_loop_src w batchSize (drop batchSize unanalyzed) (results @ rs) e'))
            = map item_id (results @ rs) @ map fb_id (drop batchSize unanalyzed)"
      using "1.IH" [OF nz rb [symmetric] "1.prems"] .
    then have "map item_id (fst (batch_loop_src w batchSize unanalyzed results e))
            = map item_id (results @ rs) @ map fb_id (drop batchSize unanalyzed)"
      using nz rb by (subst batch_loop_src.simps) simp
    also have "\<dots> = map item_id results @ map fb_id (take batchSize unanalyzed @ drop batchSize unanalyzed)"
      using ids by (simp del: append_take_drop_id)
    finally show ?thesis by simp
  qed
qed

lemma analyzeAllFeedback_src_never_throws:
  "\<exists>b. fst (analyzeAllFeedback_src w e) = Inr (Response 200 b)"
  by (simp add: analyzeAllFeedback_src_def Let_def split: prod.splits)

lemma analyzeAllFeedback_src_reports_every_row:
  assumes "take 50 (filter (\<lambda>f. fb_sentiment f = None) (DB e)) \<noteq> []"
  shows "\<exists>results. fst (analyzeAllFeedback_src w e)
            = Inr (Response 200 (BatchReport (length results)
                     (length (filter item_success results))
                     (length (filter (\<lambda>r. \<not> item_success r) results)) results))
          \<and> map item_id results = map fb_id (take 50 (filter (\<lambda>f. fb_sentiment f = None) (DB e)))"
proof -
  let ?sel = "take 50 (filter (\<lambda>f. fb_sentiment f = None) (DB e))"
  obtain results e' where bl: "batch_loop_src w 5 ?sel [] e = (results, e')"
    by (cases "batch_loop_src w 5 ?sel [] e")
  have "map item_id results = map fb_id ?sel"
    using batch_loop_src_ids [of 5 w ?sel "[]" e] bl by simp
  moreover have "fst (analyzeAllFeedback_src w e)
            = Inr (Response 200 (BatchReport (length results)
                     (length (filter item_success results))
                     (length (filter (\<lambda>r. \<not> item_success r) results)) results))"
    using assms bl by (simp add: analyzeAllFeedback_src_def Let_def)
  ultimately show ?thesis by blast
qed

section \<open>Label extraction never throws; what it validates\<close>

text \<open>The vocabulary of themes named in the prompt.\<close>

definition theme_vocabulary :: "string list" where
  "theme_vocabulary =
     [''bug'', ''feature-request'', ''performance'', ''ux'', ''documentation'', ''pricing'',
      ''security'', ''integration'', ''mobile'', ''accessibility'', ''api'', ''support'']"


definition answering_world :: "string \<Rightarrow> world" where
  "answering_world answer = \<lparr> ai_run = (\<lambda>p. Some answer), update_fails = (\<lambda>i. False), now = [] \<rparr>"



text \<open>
  \<open>analyzeWithAI\<close> of index.ts in terms of its three patterns.  If the call fails the triple
  is (neutral, general, medium).  Otherwise the sentiment is one of positive, negative,
  neutral and is \<open>neutral\<close> when its pattern finds nothing; the urgency is one of low, medium,
  high and is \<open>medium\<close> when its pattern finds nothing; the themes are \<open>general\<close> when the
  pattern \<open>/THEMES:\s*([^\n]+)/i\<close> finds nothing and the trimmed text of its group otherwise.
\<close>

lemma analyzeWithAI_by_pattern:
  "an_sentiment (analyzeWithAI w t) \<in> {''positive'', ''negative'', ''neutral''}
   \<and> an_urgency (analyzeWithAI w t) \<in> {''low'', ''medium'', ''high''}
   \<and> (ai_run w (combinedPrompt t) = None \<longrightarrow>
        analyzeWithAI w t = Analysis ''neutral'' ''general'' ''medium'')
   \<and> (\<forall>r. ai_run w (combinedPrompt t) = Some r \<longrightarrow>
        (regex_search (match_label_word ''SENTIMENT:'' [''positive'', ''negative'', ''neutral'']) (trim r) = None
           \<longrightarrow> an_sentiment (analyzeWithAI w t) = ''neutral'')
      \<and> (regex_search (match_label_word ''URGENCY:'' [''low'', ''medium'', ''high'']) (trim r) = None
           \<longrightarrow> an_urgency (analyzeWithAI w t) = ''medium'')
      \<and> an_themes (analyzeWithAI w t)
           = (case regex_search (match_label_line ''THEMES:'') (trim r) of
                None \<Rightarrow> ''general'' | Some g \<Rightarrow> trim g))"
proof (cases "ai_run w (combinedPrompt t)")
  case None
  then show ?thesis by (simp add: analyzeWithAI_def)
next
  case (Some r)
  have s: "an_sentiment (parse_analysis r) \<in> {''positive'', ''negative'', ''neutral''}"
    by (simp add: parse_analysis_def Let_def)
  have u: "an_urgency (parse_analysis r) \<in> {''low'', ''medium'', ''high''}"
    by (simp add: parse_analysis_def Let_def)
  have s0: "regex_search (match_label_word ''SENTIMENT:'' [''positive'', ''negative'', ''neutral'']) (trim r) = None
           \<Longrightarrow> an_sentiment (parse_analysis r) = ''neutral''"
    by (simp add: parse_analysis_def Let_def)
  have u0: "regex_search (match_label_word ''URGENCY:'' [''low'', ''medium'', ''high'']) (trim r) = None
           \<Longrightarrow> an_urgency (parse_analysis r) = ''medium''"
    by (simp add: parse_analysis_def Let_def)
  have th: "an_themes (parse_analysis r)
           = (case regex_search (match_label_line ''THEMES:'') (trim r) of
                None \<Rightarrow> ''general'' | Some g \<Rightarrow> trim g)"
    by (simp add: parse_analysis_def Let_def split: option.splits)
  have aw: "analyzeWithAI w t = parse_analysis r"
    using Some by (simp add: analyzeWithAI_def)
  show ?thesis
    unfolding aw using Some s u s0 u0 th by simp
qed

lemma analyzeWithAI_by_pattern_examples:
  "analyzeWithAI (failing_world []) ''great product'' = Analysis ''neutral'' ''general'' ''medium''
   \<and> an_themes (analyzeWithAI (answering_world ''URGENCY: urgent'') ''great product'') = ''general''
   \<and> an_urgency (analyzeWithAI (answering_world ''URGENCY: urgent'') ''great product'') = ''medium''"
proof -
  have fails: "ai_run (failing_world []) (combinedPrompt ''great product'') = None"
    by (simp add: failing_world_def)
  have answers: "ai_run (answering_world ''URGENCY: urgent'') (combinedPrompt ''great product'')
                   = Some ''URGENCY: urgent''"
    by (simp add: answering_world_def)
  have no_urgency: "regex_search (match_label_word ''URGENCY:'' [''low'', ''medium'', ''high''])
                      (trim ''URGENCY: urgent'') = None"
    by code_simp
  have no_themes: "regex_search (match_label_line ''THEMES:'') (trim ''URGENCY: urgent'') = None"
    by code_simp
  show ?thesis
    using analyzeWithAI_by_pattern [of "failing_world []" "''great product''"]
          analyzeWithAI_by_pattern [of "answering_world ''URGENCY: urgent''" "''great product''"]
          fails answers no_urgency no_themes
    by simp
qed

lemma analyzeWithAI_src_propagates:
  "ai_run w (prompt_src t) = None \<Longrightarrow> analyzeWithAI_src w t = Inl AiError"
  by (simp add: analyzeWithAI_src_def)

section \<open>The sentiment score in double precision\<close>

definition forty_entries :: "FeedbackEntry list" where
  "forty_entries =
     replicate 23 (entry 1 ''nice ui'' (Some ''positive'') (Some ''ux'') (Some ''low''))
     @ replicate 17 (entry 2 ''ok'' (Some ''neutral'') (Some ''ux'') (Some ''low''))"

lemma double_23_over_40:
  "js_div 23 40 = 2589569785738035 / 4503599627370496
   \<and> js_mul (js_div 23 40) 100 = 8092405580431359 / 140737488355328"
  by code_simp

text \<open>
  C5.  23 positive and 17 neutral entries: the sum is 23, the count 40, and
  \<open>round(100 * 23 / 40) = round(57.5) = 58\<close>.  The source computes \<open>(23 / 40) * 100\<close> in double
  precision, which is \<open>57.49999999999999\<close>, and returns 57.
\<close>

theorem calculateSentimentScore_off_by_one:
  "calculateSentimentScore forty_entries = Some 57
   \<and> Math_round (100 * 23 / 40) = 58"
  by code_simp

lemma calculateSentimentScore_three_entries:
  "calculateSentimentScore three_entries = Some (- 33)"
  by code_simp

section \<open>Tallying by theme tag\<close>

text \<open>
  The tags an entry lists: the pieces of its \<open>themes\<close> field between commas, trimmed; none
  when the field is null or empty.
\<close>

definition tags_of :: "FeedbackEntry \<Rightarrow> string list" where
  "tags_of f = (if truthy (fb_themes f) then themeList f else [])"

text \<open>
  \<open>tag_count P feedback t\<close>: how many times the entries satisfying \<open>P\<close> list the tag \<open>t\<close>, an
  entry counting once for every time it lists it.
\<close>

definition tag_count :: "(FeedbackEntry \<Rightarrow> bool) \<Rightarrow> FeedbackEntry list \<Rightarrow> string \<Rightarrow> nat" where
  "tag_count P feedback t = sum_list (map (\<lambda>f. count_list (tags_of f) t) (filter P feedback))"

definition is_negative :: "FeedbackEntry \<Rightarrow> bool" where
  "is_negative f = (fb_sentiment f = Some ''negative'')"

definition is_high :: "FeedbackEntry \<Rightarrow> bool" where
  "is_high f = (fb_urgency f = Some ''high'')"

text \<open>The value stored under a key, the initial value standing for an absent key.\<close>

definition entry_of :: "'v \<Rightarrow> (string \<times> 'v) list \<Rightarrow> string \<Rightarrow> 'v" where
  "entry_of init obj k = (case map_of obj k of None \<Rightarrow> init | Some v \<Rightarrow> v)"

lemma map_of_map_update:
  "map_of (map (\<lambda>(k', v'). if k' = k then (k', h v') else (k', v')) obj) t
     = (if t = k then map_option h (map_of obj t) else map_of obj t)"
  by (induction obj) auto

lemma map_of_record_modify:
  "map_of (record_modify k init h obj) t
     = (if t = k then Some (h (entry_of init obj k)) else map_of obj t)"
proof (cases "map_of obj k")
  case None
  then show ?thesis
    by (auto simp: record_modify_def entry_of_def map_add_def split: option.splits)
next
  case (Some v)
  then show ?thesis
    by (simp add: record_modify_def entry_of_def map_of_map_update)
qed

lemma entry_of_record_modify:
  "entry_of init (record_modify k init h obj) t
     = (if t = k then h (entry_of init obj k) else entry_of init obj t)"
  by (simp add: entry_of_def map_of_record_modify)

lemma keys_map_update:
  "map fst (map (\<lambda>(k', v'). if k' = k then (k', h v') else (k', v')) obj) = map fst obj"
  by (induction obj) auto

lemma keys_record_modify_Some:
  "map_of obj k = Some v \<Longrightarrow> map fst (record_modify k init h obj) = map fst obj"
  by (simp only: record_modify_def option.case keys_map_update)

lemma keys_record_modify:
  "fst ` set (record_modify k init h obj) = insert k (fst ` set obj)"
proof (cases "map_of obj k")
  case None
  then show ?thesis by (simp add: record_modify_def)
next
  case (Some v)
  then have "(k, v) \<in> set obj"
    by (rule map_of_SomeD)
  then have "k \<in> fst ` set obj"
    by (rule rev_image_eqI) simp
  moreover have "fst ` set (record_modify k init h obj) = fst ` set obj"
    using keys_record_modify_Some [OF Some, of init h] by (metis set_map)
  ultimately show ?thesis by auto
qed

lemma distinct_record_modify:
  "distinct (map fst obj) \<Longrightarrow> distinct (map fst (record_modify k init h obj))"
proof (cases "map_of obj k")
  case None
  assume "distinct (map fst obj)"
  moreover have "k \<notin> fst ` set obj"
    using None by (simp add: map_of_eq_None_iff)
  ultimately show ?thesis
    using None by (simp add: record_modify_def)
next
  case (Some v)
  assume "distinct (map fst obj)"
  then show ?thesis
    by (simp only: keys_record_modify_Some [OF Some])
qed

text \<open>The inner loop over the tags of one entry, and the outer loop over the entries.\<close>

lemma fold_tags_measure:
  assumes "\<And>v. m (h v) = m v + d"
  shows "m (entry_of init (fold (\<lambda>t. record_modify t init h) ts obj) t)
           = m (entry_of init obj t) + d * count_list ts t"
  using assms
  by (induction ts arbitrary: obj) (simp_all add: entry_of_record_modify)

lemma fold_tags_keys:
  "fst ` set (fold (\<lambda>t. record_modify t init h) ts obj) = fst ` set obj \<union> set ts"
  by (induction ts arbitrary: obj) (auto simp: keys_record_modify)

lemma fold_tags_distinct:
  "distinct (map fst obj) \<Longrightarrow> distinct (map fst (fold (\<lambda>t. record_modify t init h) ts obj))"
  by (induction ts arbitrary: obj) (simp_all add: distinct_record_modify)

definition tally :: "'v \<Rightarrow> (FeedbackEntry \<Rightarrow> 'v \<Rightarrow> 'v) \<Rightarrow> (FeedbackEntry \<Rightarrow> string list)
                     \<Rightarrow> FeedbackEntry list \<Rightarrow> (string \<times> 'v) list \<Rightarrow> (string \<times> 'v) list" where
  "tally init h tg fs obj = fold (\<lambda>f. fold (\<lambda>t. record_modify t init (h f)) (tg f)) fs obj"

lemma tally_measure:
  assumes "\<And>f v. m (h f v) = m v + d f"
  shows "m (entry_of init (tally init h tg fs obj) t)
           = m (entry_of init obj t) + sum_list (map (\<lambda>f. d f * count_list (tg f) t) fs)"
proof (induction fs arbitrary: obj)
  case Nil
  show ?case by (simp add: tally_def)
next
  case (Cons f fs)
  have "m (entry_of init (tally init h tg (f # fs) obj) t)
          = m (entry_of init (tally init h tg fs (fold (\<lambda>t. record_modify t init (h f)) (tg f) obj)) t)"
    by (simp add: tally_def)
  also have "\<dots> = m (entry_of init (fold (\<lambda>t. record_modify t init (h f)) (tg f) obj) t)
                     + sum_list (map (\<lambda>f. d f * count_list (tg f) t) fs)"
    by (rule Cons.IH)
  also have "m (entry_of init (fold (\<lambda>t. record_modify t init (h f)) (tg f) obj) t)
               = m (entry_of init obj t) + d f * count_list (tg f) t"
    by (rule fold_tags_measure) (rule assms)
  finally show ?case by simp
qed

lemma tally_keys:
  "fst ` set (tally init h tg fs obj) = fst ` set obj \<union> (\<Union>f\<in>set fs. set (tg f))"
  by (induction fs arbitrary: obj) (auto simp: tally_def fold_tags_keys)

lemma tally_distinct:
  "distinct (map fst obj) \<Longrightarrow> distinct (map fst (tally init h tg fs obj))"
  by (induction fs arbitrary: obj) (simp_all add: tally_def fold_tags_distinct)

lemma entry_of_member:
  "distinct (map fst obj) \<Longrightarrow> (k, v) \<in> set obj \<Longrightarrow> entry_of init obj k = v"
  by (simp add: entry_of_def)

text \<open>Sums over the entries that list a tag.\<close>

lemma sum_list_filter_indicator:
  "sum_list (map (\<lambda>f. (if Q f then 1 else 0) * c f) fs) = sum_list (map c (filter Q fs))"
  for c :: "'a \<Rightarrow> nat"
  by (induction fs) auto

lemma sum_list_pos_iff:
  "0 < sum_list (map c fs) \<longleftrightarrow> (\<exists>f\<in>set fs. 0 < c f)"
  for c :: "'a \<Rightarrow> nat"
  by (induction fs) auto

lemma count_list_pos_iff: "0 < count_list xs x \<longleftrightarrow> x \<in> set xs"
  by (induction xs) auto

lemma tag_count_pos_iff:
  "0 < tag_count P feedback t \<longleftrightarrow> (\<exists>f\<in>set feedback. P f \<and> t \<in> set (tags_of f))"
  by (auto simp: tag_count_def sum_list_pos_iff count_list_pos_iff)

lemma more_than_half_iff: "more_than_half n c \<longleftrightarrow> c < 2 * n"
proof -
  have "(of_nat c :: rat) / 2 < of_nat n \<longleftrightarrow> (of_nat c :: rat) < of_nat (2 * n)"
    by (simp add: field_simps)
  also have "\<dots> \<longleftrightarrow> c < 2 * n"
    by (rule of_nat_less_iff)
  finally show ?thesis by (simp add: more_than_half_def)
qed

text \<open>\<open>Object.entries\<close> permutes the own properties.\<close>

lemma set_object_entries: "set (object_entries obj) = set obj"
  by (auto simp: object_entries_def)

lemma length_object_entries: "length (object_entries obj) = length obj"
  using sum_length_filter_compl [of "\<lambda>kv. is_array_index (fst kv)" obj]
  by (simp add: object_entries_def)

lemma distinct_object_entries:
  assumes "distinct (map fst obj)"
  shows "distinct (map fst (object_entries obj))"
proof -
  have inj: "inj_on fst (set obj)" and d: "distinct obj"
    using assms by (simp_all add: distinct_map)
  have "distinct (object_entries obj)"
    using d by (auto simp: object_entries_def)
  then show ?thesis
    using inj by (simp add: distinct_map set_object_entries)
qed

text \<open>Sorting by descending count and keeping the first \<open>k\<close> rows.\<close>

lemma sorted_sort_by_count_desc:
  "sorted_wrt (\<lambda>a b. cnt b \<le> cnt a) (sort_by_count_desc cnt rows)"
proof -
  have "sorted (map (\<lambda>r. - int (cnt r)) (sort_key (\<lambda>r. - int (cnt r)) rows))"
    by (rule sorted_sort_key)
  then show ?thesis
    by (simp add: sort_by_count_desc_def sorted_map)
qed

lemma top_rows:
  fixes cnt :: "'r \<Rightarrow> nat" and k :: nat and rows :: "'r list"
  defines "res \<equiv> take k (sort_by_count_desc cnt rows)"
  shows "set res \<subseteq> set rows"
    and "sorted_wrt (\<lambda>a b. cnt b \<le> cnt a) res"
    and "length res = min k (length rows)"
    and "distinct (map th rows) \<Longrightarrow> distinct (map th res)"
    and "r \<in> set rows \<Longrightarrow> r \<notin> set res \<Longrightarrow> \<forall>r'\<in>set res. cnt r \<le> cnt r'"
proof -
  let ?s = "sort_by_count_desc cnt rows"
  have set_s: "set ?s = set rows"
    by (simp add: sort_by_count_desc_def)
  show "set res \<subseteq> set rows"
    using set_take_subset [of k ?s] set_s by (simp add: res_def)
  show "sorted_wrt (\<lambda>a b. cnt b \<le> cnt a) res"
    unfolding res_def by (rule sorted_wrt_take) (rule sorted_sort_by_count_desc)
  show "length res = min k (length rows)"
    by (simp add: res_def sort_by_count_desc_def min.commute)
  show "distinct (map th res)" if "distinct (map th rows)"
  proof -
    have "distinct ?s" and "inj_on th (set ?s)"
      using that by (simp_all add: distinct_map sort_by_count_desc_def)
    then have "distinct (map th ?s)"
      by (simp add: distinct_map)
    then show ?thesis
      unfolding res_def take_map [symmetric] by (rule distinct_take)
  qed
  show "\<forall>r'\<in>set res. cnt r \<le> cnt r'" if "r \<in> set rows" "r \<notin> set res"
  proof
    fix r'
    assume r': "r' \<in> set res"
    have "set ?s = set (take k ?s) \<union> set (drop k ?s)"
      by (metis append_take_drop_id set_append)
    then have "r \<in> set (drop k ?s)"
      using that set_s by (auto simp: res_def)
    moreover have "sorted_wrt (\<lambda>a b. cnt b \<le> cnt a) (take k ?s @ drop k ?s)"
      using sorted_sort_by_count_desc [of cnt rows] by simp
    ultimately show "cnt r \<le> cnt r'"
      using r' unfolding res_def sorted_wrt_append by blast
  qed
qed

text \<open>The table built from a tally: one row per key, sorted by descending count, cut at \<open>k\<close>.\<close>

lemma top_table:
  fixes row :: "string \<times> 'v \<Rightarrow> 'r" and th :: "'r \<Rightarrow> string" and cnt :: "'r \<Rightarrow> nat"
    and k :: nat and obj :: "(string \<times> 'v) list" and occ :: "string \<Rightarrow> nat"
  assumes D: "distinct (map fst obj)"
    and TH: "\<And>kv. th (row kv) = fst kv"
    and CNT: "\<And>kv. kv \<in> set obj \<Longrightarrow> cnt (row kv) = occ (fst kv)"
    and K: "fst ` set obj = {t. 0 < occ t}"
  defines "res \<equiv> take k (sort_by_count_desc cnt (map row (object_entries obj)))"
  shows "\<forall>r\<in>set res. \<exists>kv\<in>set obj. r = row kv"
    and "sorted_wrt (\<lambda>a b. cnt b \<le> cnt a) res"
    and "distinct (map th res)"
    and "length res = min k (card {t. 0 < occ t})"
    and "\<forall>t. 0 < occ t \<longrightarrow> t \<notin> th ` set res \<longrightarrow> (\<forall>r\<in>set res. occ t \<le> cnt r)"
proof -
  let ?rows = "map row (object_entries obj)"
  have set_rows: "set ?rows = row ` set obj"
    by (simp add: set_object_entries)
  have sub: "set res \<subseteq> set ?rows"
    unfolding res_def by (rule top_rows(1))
  show "\<forall>r\<in>set res. \<exists>kv\<in>set obj. r = row kv"
  proof
    fix r
    assume "r \<in> set res"
    then have "r \<in> row ` set obj"
      using sub set_rows by (simp add: subset_iff)
    then show "\<exists>kv\<in>set obj. r = row kv"
      by (rule imageE) (rule bexI)
  qed
  show "sorted_wrt (\<lambda>a b. cnt b \<le> cnt a) res"
    unfolding res_def by (rule top_rows(2))
  have eq: "map th ?rows = map fst (object_entries obj)"
    by (simp add: TH)
  have "distinct (map th ?rows)"
    unfolding eq by (rule distinct_object_entries [OF D])
  then show "distinct (map th res)"
    unfolding res_def by (rule top_rows(4))
  have "length res = min k (length ?rows)"
    unfolding res_def by (rule top_rows(3))
  moreover have "length ?rows = length (map fst obj)"
    by (simp add: length_object_entries)
  moreover have "length (map fst obj) = card (set (map fst obj))"
    using D by (simp only: distinct_card)
  moreover have "set (map fst obj) = {t. 0 < occ t}"
    using K by simp
  ultimately show "length res = min k (card {t. 0 < occ t})"
    by simp
  show "\<forall>t. 0 < occ t \<longrightarrow> t \<notin> th ` set res \<longrightarrow> (\<forall>r\<in>set res. occ t \<le> cnt r)"
  proof (intro allI impI)
    fix t
    assume pos: "0 < occ t" and out: "t \<notin> th ` set res"
    have "t \<in> fst ` set obj"
      using pos K by simp
    then obtain kv where kv: "kv \<in> set obj" and t: "fst kv = t"
      by auto
    have in_rows: "row kv \<in> set ?rows"
      using kv by (simp add: set_object_entries)
    have notin: "row kv \<notin> set (take k (sort_by_count_desc cnt ?rows))"
    proof
      assume "row kv \<in> set (take k (sort_by_count_desc cnt ?rows))"
      then have "th (row kv) \<in> th ` set res"
        unfolding res_def by (rule imageI)
      then show False
        using out by (simp add: TH t)
    qed
    have "\<forall>r'\<in>set res. cnt (row kv) \<le> cnt r'"
      unfolding res_def by (rule top_rows(5) [OF in_rows notin])
    then show "\<forall>r\<in>set res. occ t \<le> cnt r"
      by (simp add: CNT [OF kv] t)
  qed
qed

lemma sum_list_filter_conj:
  fixes c :: "'a \<Rightarrow> nat"
  assumes "\<And>f. \<not> Q f \<Longrightarrow> c f = 0"
  shows "sum_list (map c (filter (\<lambda>f. P f \<and> Q f) fs)) = sum_list (map c (filter P fs))"
  using assms by (induction fs) auto

lemma comma_free_split: "p \<in> set (split_on sep s) \<Longrightarrow> sep \<notin> set p"
proof (induction s arbitrary: p)
  case Nil
  then show ?case by simp
next
  case (Cons c cs)
  show ?case
  proof (cases "c = sep")
    case True
    with Cons show ?thesis by auto
  next
    case False
    obtain q qs where sp: "split_on sep cs = q # qs"
      by (cases "split_on sep cs") (cases cs; simp split: if_splits list.splits)+
    with Cons.prems False have "p = c # q \<or> p \<in> set qs" by simp
    then show ?thesis
      using Cons.IH [of q] Cons.IH [of p] sp False by auto
  qed
qed

lemma set_trim: "set (trim s) \<subseteq> set s"
proof -
  have "set (dropWhile P xs) \<subseteq> set xs" for P and xs :: string
    by (auto dest: set_dropWhileD)
  then have "set (dropWhile is_space (rev (dropWhile is_space s))) \<subseteq> set s"
    by (metis set_rev subset_trans)
  then show ?thesis by (simp add: trim_def)
qed

lemma tags_comma_free: "t \<in> set (tags_of f) \<Longrightarrow> CHR '','' \<notin> set t"
proof -
  assume "t \<in> set (tags_of f)"
  then obtain s p where "p \<in> set (split_on CHR '','' s)" and "t = trim p"
    by (auto simp: tags_of_def themeList_def split: if_splits option.splits)
  then show ?thesis
    using comma_free_split [of p "CHR '',''" s] set_trim [of p] by auto
qed

section \<open>Theme breakdown: the table\<close>

definition theme_bump :: "FeedbackEntry \<Rightarrow> theme_data \<Rightarrow> theme_data" where
  "theme_bump f d =
     ThemeData (td_count d + 1)
       (if fb_sentiment f = Some ''negative'' then td_negative d + 1 else td_negative d)"

lemma theme_visit_plain:
  "\<not> inherited_key t \<Longrightarrow>
   theme_visit f t obj = record_modify t (ThemeData 0 0) (theme_bump f) obj"
proof -
  have "theme_bump f = (\<lambda>d. ThemeData (td_count d + 1)
          (if fb_sentiment f = Some ''negative'' then td_negative d + 1 else td_negative d))"
    by (rule ext) (simp add: theme_bump_def)
  then show "\<not> inherited_key t \<Longrightarrow> ?thesis"
    by (simp add: theme_visit_def)
qed

lemma theme_fold_tally:
  assumes "\<forall>f\<in>set fs. \<forall>t\<in>set (tags_of f). \<not> inherited_key t"
  shows "fold (\<lambda>f themes. if truthy (fb_themes f) then fold (theme_visit f) (themeList f) themes
                            else themes) fs obj
           = tally (ThemeData 0 0) theme_bump tags_of fs obj"
  using assms
proof (induction fs arbitrary: obj)
  case Nil
  show ?case by (simp add: tally_def)
next
  case (Cons f fs)
  let ?plain = "\<lambda>t. record_modify t (ThemeData 0 0) (theme_bump f)"
  have step: "(if truthy (fb_themes f) then fold (theme_visit f) (themeList f) obj else obj)
                = fold ?plain (tags_of f) obj"
  proof (cases "truthy (fb_themes f)")
    case True
    then have tg: "tags_of f = themeList f"
      by (simp add: tags_of_def)
    have "fold (theme_visit f) (tags_of f) obj = fold ?plain (tags_of f) obj"
    proof (rule fold_cong)
      fix t
      assume "t \<in> set (tags_of f)"
      then have "\<not> inherited_key t"
        using Cons.prems by simp
      then show "theme_visit f t = ?plain t"
        by (intro ext) (rule theme_visit_plain)
    qed simp_all
    then show ?thesis
      using True tg by simp
  next
    case False
    then show ?thesis by (simp add: tags_of_def)
  qed
  have rest: "\<forall>f\<in>set fs. \<forall>t\<in>set (tags_of f). \<not> inherited_key t"
    using Cons.prems by simp
  show ?case
    using Cons.IH [OF rest, of "fold ?plain (tags_of f) obj"] step
    by (simp add: tally_def)
qed

lemma theme_tally_facts:
  fixes feedback :: "FeedbackEntry list"
  defines "obj \<equiv> tally (ThemeData 0 0) theme_bump tags_of feedback []"
  shows "distinct (map fst obj)"
    and "fst ` set obj = {t. 0 < tag_count (\<lambda>f. True) feedback t}"
    and "kv \<in> set obj \<Longrightarrow> td_count (snd kv) = tag_count (\<lambda>f. True) feedback (fst kv)"
    and "kv \<in> set obj \<Longrightarrow> td_negative (snd kv) = tag_count is_negative feedback (fst kv)"
proof -
  show d: "distinct (map fst obj)"
    unfolding obj_def by (rule tally_distinct) simp
  show "fst ` set obj = {t. 0 < tag_count (\<lambda>f. True) feedback t}"
    unfolding obj_def by (auto simp: tally_keys tag_count_pos_iff)
  have c: "td_count (entry_of (ThemeData 0 0) obj t) = tag_count (\<lambda>f. True) feedback t" for t
    using tally_measure [of td_count theme_bump "\<lambda>f. 1" "ThemeData 0 0" tags_of feedback "[]" t]
    by (simp add: obj_def theme_bump_def entry_of_def tag_count_def)
  have n: "td_negative (entry_of (ThemeData 0 0) obj t) = tag_count is_negative feedback t" for t
    using tally_measure [of td_negative theme_bump "\<lambda>f. if is_negative f then 1 else 0"
            "ThemeData 0 0" tags_of feedback "[]" t]
          sum_list_filter_indicator [of is_negative "\<lambda>f. count_list (tags_of f) t" feedback]
    by (simp add: obj_def theme_bump_def entry_of_def tag_count_def is_negative_def)
  show "td_count (snd kv) = tag_count (\<lambda>f. True) feedback (fst kv)" if "kv \<in> set obj"
    using c [of "fst kv"] entry_of_member [OF d, of "fst kv" "snd kv" "ThemeData 0 0"] that
    by simp
  show "td_negative (snd kv) = tag_count is_negative feedback (fst kv)" if "kv \<in> set obj"
    using n [of "fst kv"] entry_of_member [OF d, of "fst kv" "snd kv" "ThemeData 0 0"] that
    by simp
qed

text \<open>
  Provided no tag is the name of a property inherited from \<open>Object.prototype\<close>, the rows of
  \<open>getThemeBreakdown\<close> are built from all entries: every row carries an individual tag (no
  comma in it) with the number of times the entries list that tag, so an entry listing two
  tags adds one to each; its sentiment is \<open>negative\<close> iff more than half of these occurrences
  come from negative entries, and \<open>positive\<close> otherwise.  The rows are sorted by descending
  count, one per tag, and are the 10 most frequent tags (all of them when there are fewer).
\<close>

lemma getThemeBreakdown_table:
  assumes "\<forall>f\<in>set feedback. \<forall>t\<in>set (tags_of f). \<not> inherited_key t"
  shows "(\<forall>r\<in>set (getThemeBreakdown feedback).
            tr_count r = tag_count (\<lambda>f. True) feedback (tr_theme r)
            \<and> 0 < tr_count r
            \<and> CHR '','' \<notin> set (tr_theme r)
            \<and> tr_sentiment r
                = (if tr_count r < 2 * tag_count is_negative feedback (tr_theme r)
                   then ''negative'' else ''positive''))
       \<and> sorted_wrt (\<lambda>a b. tr_count b \<le> tr_count a) (getThemeBreakdown feedback)
       \<and> distinct (map tr_theme (getThemeBreakdown feedback))
       \<and> length (getThemeBreakdown feedback)
           = min 10 (card {t. 0 < tag_count (\<lambda>f. True) feedback t})
       \<and> (\<forall>t. 0 < tag_count (\<lambda>f. True) feedback t
              \<longrightarrow> t \<notin> tr_theme ` set (getThemeBreakdown feedback)
              \<longrightarrow> (\<forall>r\<in>set (getThemeBreakdown feedback).
                     tag_count (\<lambda>f. True) feedback t \<le> tr_count r))"
proof -
  let ?obj = "tally (ThemeData 0 0) theme_bump tags_of feedback []"
  let ?occ = "tag_count (\<lambda>f. True) feedback"
  have gb: "getThemeBreakdown feedback
              = take 10 (sort_by_count_desc tr_count (map theme_row (object_entries ?obj)))"
    using theme_fold_tally [OF assms, of "[]"] by (simp add: getThemeBreakdown_def)
  note facts = theme_tally_facts [where feedback = feedback]
  have TH: "tr_theme (theme_row kv) = fst kv" for kv
    by (simp add: theme_row_def)
  have CNT: "tr_count (theme_row kv) = ?occ (fst kv)" if "kv \<in> set ?obj" for kv
    using facts(3) [OF that] by (simp add: theme_row_def)
  note tab = top_table [where obj = ?obj and th = tr_theme and row = theme_row and cnt = tr_count
      and occ = ?occ and k = 10, OF facts(1) TH CNT facts(2), folded gb]
  have rows: "tr_count r = ?occ (tr_theme r) \<and> 0 < tr_count r \<and> CHR '','' \<notin> set (tr_theme r)
            \<and> tr_sentiment r = (if tr_count r < 2 * tag_count is_negative feedback (tr_theme r)
                                then ''negative'' else ''positive'')"
    if "r \<in> set (getThemeBreakdown feedback)" for r
  proof -
    from tab(1) that obtain kv where kv: "kv \<in> set ?obj" and r: "r = theme_row kv"
      by blast
    have c: "tr_count r = ?occ (tr_theme r)"
      using CNT [OF kv] by (simp add: r TH)
    have "fst kv \<in> fst ` set ?obj"
      using kv by (rule imageI)
    then have pos: "0 < ?occ (fst kv)"
      using facts(2) by simp
    then obtain f where "f \<in> set feedback" and "fst kv \<in> set (tags_of f)"
      by (auto simp: tag_count_pos_iff)
    then have comma: "CHR '','' \<notin> set (fst kv)"
      by (simp add: tags_comma_free)
    have s: "tr_sentiment r = (if ?occ (fst kv) < 2 * tag_count is_negative feedback (fst kv)
                              then ''negative'' else ''positive'')"
      using facts(3) [OF kv] facts(4) [OF kv] by (simp add: r theme_row_def more_than_half_iff)
    show ?thesis
      using c pos comma s by (simp add: r TH)
  qed
  show ?thesis
    using rows tab(2-5) by (intro conjI ballI) blast+
qed
definition two_tag_entries :: "FeedbackEntry list" where
  "two_tag_entries =
     [entry 1 ''crashes and is slow'' (Some ''negative'') (Some ''bug, performance'') (Some ''high'')]"

lemma getThemeBreakdown_two_tags:
  "getThemeBreakdown two_tag_entries
     = [ThemeRow ''bug'' 1 ''negative'', ThemeRow ''performance'' 1 ''negative'']"
  by code_simp

lemma getThemeBreakdown_table_two_tags:
  "getThemeBreakdown two_tag_entries
     = [ThemeRow ''bug'' 1 ''negative'', ThemeRow ''performance'' 1 ''negative'']
   \<and> tag_count (\<lambda>f. True) two_tag_entries ''bug'' = 1
   \<and> tag_count (\<lambda>f. True) two_tag_entries ''performance'' = 1
   \<and> tag_count (\<lambda>f. True) two_tag_entries ''bug, performance'' = 0
   \<and> length (getThemeBreakdown two_tag_entries)
       = min 10 (card {t. 0 < tag_count (\<lambda>f. True) two_tag_entries t})"
proof -
  have hyp: "\<forall>f\<in>set two_tag_entries. \<forall>t\<in>set (tags_of f). \<not> inherited_key t"
    by code_simp
  have rows: "\<forall>r\<in>set (getThemeBreakdown two_tag_entries).
                tr_count r = tag_count (\<lambda>f. True) two_tag_entries (tr_theme r)"
    using getThemeBreakdown_table [OF hyp] by blast
  have len: "length (getThemeBreakdown two_tag_entries)
       = min 10 (card {t. 0 < tag_count (\<lambda>f. True) two_tag_entries t})"
    using getThemeBreakdown_table [OF hyp] by blast
  have none: "tag_count (\<lambda>f. True) two_tag_entries ''bug, performance'' = 0"
    by code_simp
  show ?thesis
    using rows len none by (simp add: getThemeBreakdown_two_tags)
qed

section \<open>Pain points: the table\<close>

definition pain_bump :: "FeedbackEntry \<Rightarrow> pain_data \<Rightarrow> pain_data" where
  "pain_bump f d =
     PainData (pd_count d + 1)
       (case fb_urgency f of
          None \<Rightarrow> pd_urgency d
        | Some u \<Rightarrow> if u \<noteq> [] then pd_urgency d @ [u] else pd_urgency d)"

definition high_votes :: "pain_data \<Rightarrow> nat" where
  "high_votes d = length (filter (\<lambda>u. u = ''high'') (pd_urgency d))"

lemma pain_visit_plain:
  "\<not> inherited_key t \<Longrightarrow>
   pain_visit f t obj = Inr (record_modify t (PainData 0 []) (pain_bump f) obj)"
proof -
  have "pain_bump f = (\<lambda>d. PainData (pd_count d + 1)
          (case fb_urgency f of
             None \<Rightarrow> pd_urgency d
           | Some u \<Rightarrow> if u \<noteq> [] then pd_urgency d @ [u] else pd_urgency d))"
    by (rule ext) (simp add: pain_bump_def)
  then show "\<not> inherited_key t \<Longrightarrow> ?thesis"
    by (simp add: pain_visit_def)
qed

lemma forEach_pure:
  "(\<And>x s. x \<in> set xs \<Longrightarrow> body x s = Inr (g x s)) \<Longrightarrow> forEach body xs s = Inr (fold g xs s)"
  by (induction xs arbitrary: s) simp_all

lemma pain_forEach_tally:
  assumes "\<forall>f\<in>set fs. truthy (fb_themes f) \<and> (\<forall>t\<in>set (tags_of f). \<not> inherited_key t)"
  shows "forEach (\<lambda>f. forEach (pain_visit f) (themeList f)) fs obj
           = Inr (tally (PainData 0 []) pain_bump tags_of fs obj)"
  unfolding tally_def
proof (rule forEach_pure)
  fix f s
  assume f: "f \<in> set fs"
  then have tg: "themeList f = tags_of f"
    using assms by (simp add: tags_of_def)
  show "forEach (pain_visit f) (themeList f) s
          = Inr (fold (\<lambda>t. record_modify t (PainData 0 []) (pain_bump f)) (tags_of f) s)"
    unfolding tg
  proof (rule forEach_pure)
    fix t s'
    assume "t \<in> set (tags_of f)"
    then have "\<not> inherited_key t"
      using assms f by simp
    then show "pain_visit f t s' = Inr (record_modify t (PainData 0 []) (pain_bump f) s')"
      by (rule pain_visit_plain)
  qed
qed

lemma pain_tally_facts:
  fixes feedback :: "FeedbackEntry list"
  defines "negs \<equiv> filter (\<lambda>f. fb_sentiment f = Some ''negative'' \<and> truthy (fb_themes f)) feedback"
  defines "obj \<equiv> tally (PainData 0 []) pain_bump tags_of negs []"
  shows "distinct (map fst obj)"
    and "fst ` set obj = {t. 0 < tag_count is_negative feedback t}"
    and "kv \<in> set obj \<Longrightarrow> pd_count (snd kv) = tag_count is_negative feedback (fst kv)"
    and "kv \<in> set obj \<Longrightarrow>
           high_votes (snd kv) = tag_count (\<lambda>f. is_negative f \<and> is_high f) feedback (fst kv)"
proof -
  have negs: "negs = filter (\<lambda>f. is_negative f \<and> truthy (fb_themes f)) feedback"
    by (simp add: negs_def is_negative_def)
  have zero: "count_list (tags_of f) t = 0" if "\<not> truthy (fb_themes f)" for f t
    using that by (simp add: tags_of_def)
  show d: "distinct (map fst obj)"
    unfolding obj_def by (rule tally_distinct) simp
  have "(\<Union>f\<in>set negs. set (tags_of f)) = {t. \<exists>f\<in>set feedback. is_negative f \<and> t \<in> set (tags_of f)}"
    by (auto simp: negs tags_of_def)
  then show "fst ` set obj = {t. 0 < tag_count is_negative feedback t}"
    unfolding obj_def by (simp add: tally_keys tag_count_pos_iff)
  have c: "pd_count (entry_of (PainData 0 []) obj t) = tag_count is_negative feedback t" for t
  proof -
    have "pd_count (entry_of (PainData 0 []) obj t)
            = sum_list (map (\<lambda>f. count_list (tags_of f) t) negs)"
      using tally_measure [of pd_count pain_bump "\<lambda>f. 1" "PainData 0 []" tags_of negs "[]" t]
      by (simp add: obj_def pain_bump_def entry_of_def)
    also have "\<dots> = tag_count is_negative feedback t"
      unfolding negs tag_count_def by (rule sum_list_filter_conj) (rule zero)
    finally show ?thesis .
  qed
  have h: "high_votes (entry_of (PainData 0 []) obj t)
             = tag_count (\<lambda>f. is_negative f \<and> is_high f) feedback t" for t
  proof -
    have bump: "high_votes (pain_bump f v) = high_votes v + (if is_high f then 1 else 0)" for f v
      by (auto simp: high_votes_def pain_bump_def is_high_def split: option.splits)
    have "high_votes (entry_of (PainData 0 []) obj t)
            = sum_list (map (\<lambda>f. (if is_high f then 1 else 0) * count_list (tags_of f) t) negs)"
      using tally_measure [of high_votes pain_bump "\<lambda>f. if is_high f then 1 else 0"
              "PainData 0 []" tags_of negs "[]" t, OF bump]
      by (simp add: obj_def entry_of_def high_votes_def)
    also have "\<dots> = sum_list (map (\<lambda>f. count_list (tags_of f) t) (filter is_high negs))"
      by (rule sum_list_filter_indicator)
    also have "filter is_high negs
                 = filter (\<lambda>f. (is_negative f \<and> is_high f) \<and> truthy (fb_themes f)) feedback"
      unfolding negs by (induction feedback) auto
    also have "sum_list (map (\<lambda>f. count_list (tags_of f) t) \<dots>)
                 = tag_count (\<lambda>f. is_negative f \<and> is_high f) feedback t"
      unfolding tag_count_def by (rule sum_list_filter_conj) (rule zero)
    finally show ?thesis .
  qed
  show "pd_count (snd kv) = tag_count is_negative feedback (fst kv)" if "kv \<in> set obj"
    using c [of "fst kv"] entry_of_member [OF d, of "fst kv" "snd kv" "PainData 0 []"] that
    by simp
  show "high_votes (snd kv) = tag_count (\<lambda>f. is_negative f \<and> is_high f) feedback (fst kv)"
    if "kv \<in> set obj"
    using h [of "fst kv"] entry_of_member [OF d, of "fst kv" "snd kv" "PainData 0 []"] that
    by simp
qed
text \<open>
  Provided no tag of a negative entry is the name of a property inherited from
  \<open>Object.prototype\<close>, \<open>getPainPoints\<close> returns rows built from the negative entries only: every
  row carries an individual tag (split at the commas and trimmed) with the number of times
  the negative entries list that tag; its severity is \<open>high\<close> iff more than half of these
  occurrences come from entries of urgency \<open>high\<close>, and \<open>medium\<close> otherwise.  The rows are
  sorted by descending count, one per tag, and are the 5 most frequent tags (all of them when
  there are fewer).
\<close>

lemma getPainPoints_table:
  assumes "\<forall>f\<in>set feedback. is_negative f \<longrightarrow> (\<forall>t\<in>set (tags_of f). \<not> inherited_key t)"
  shows "\<exists>rows. getPainPoints feedback = Inr rows
       \<and> (\<forall>r\<in>set rows.
            pp_count r = tag_count is_negative feedback (pp_theme r)
            \<and> 0 < pp_count r
            \<and> CHR '','' \<notin> set (pp_theme r)
            \<and> pp_severity r
                = (if pp_count r < 2 * tag_count (\<lambda>f. is_negative f \<and> is_high f) feedback (pp_theme r)
                   then ''high'' else ''medium''))
       \<and> sorted_wrt (\<lambda>a b. pp_count b \<le> pp_count a) rows
       \<and> distinct (map pp_theme rows)
       \<and> length rows = min 5 (card {t. 0 < tag_count is_negative feedback t})
       \<and> (\<forall>t. 0 < tag_count is_negative feedback t
              \<longrightarrow> t \<notin> pp_theme ` set rows
              \<longrightarrow> (\<forall>r\<in>set rows. tag_count is_negative feedback t \<le> pp_count r))"
proof -
  let ?negs = "filter (\<lambda>f. fb_sentiment f = Some ''negative'' \<and> truthy (fb_themes f)) feedback"
  let ?obj = "tally (PainData 0 []) pain_bump tags_of ?negs []"
  let ?occ = "tag_count is_negative feedback"
  let ?rows = "take 5 (sort_by_count_desc pp_count (map pain_row (object_entries ?obj)))"
  have plain: "\<forall>f\<in>set ?negs. truthy (fb_themes f) \<and> (\<forall>t\<in>set (tags_of f). \<not> inherited_key t)"
    using assms by (auto simp: is_negative_def)
  have gp: "getPainPoints feedback = Inr ?rows"
    using pain_forEach_tally [OF plain, of "[]"] by (simp add: getPainPoints_def)
  note facts = pain_tally_facts [where feedback = feedback]
  have TH: "pp_theme (pain_row kv) = fst kv" for kv
    by (simp add: pain_row_def)
  have CNT: "pp_count (pain_row kv) = ?occ (fst kv)" if "kv \<in> set ?obj" for kv
    using facts(3) [OF that] by (simp add: pain_row_def)
  note tab = top_table [where obj = ?obj and th = pp_theme and row = pain_row and cnt = pp_count
      and occ = ?occ and k = 5, OF facts(1) TH CNT facts(2)]
  have rows: "pp_count r = ?occ (pp_theme r) \<and> 0 < pp_count r \<and> CHR '','' \<notin> set (pp_theme r)
            \<and> pp_severity r
                = (if pp_count r < 2 * tag_count (\<lambda>f. is_negative f \<and> is_high f) feedback (pp_theme r)
                   then ''high'' else ''medium'')"
    if "r \<in> set ?rows" for r
  proof -
    from tab(1) that obtain kv where kv: "kv \<in> set ?obj" and r: "r = pain_row kv"
      by blast
    have c: "pp_count r = ?occ (pp_theme r)"
      using CNT [OF kv] by (simp add: r TH)
    have "fst kv \<in> fst ` set ?obj"
      using kv by (rule imageI)
    then have pos: "0 < ?occ (fst kv)"
      using facts(2) by simp
    then obtain f where "f \<in> set feedback" and "fst kv \<in> set (tags_of f)"
      by (auto simp: tag_count_pos_iff)
    then have comma: "CHR '','' \<notin> set (fst kv)"
      by (simp add: tags_comma_free)
    have s: "pp_severity r
               = (if ?occ (fst kv) < 2 * tag_count (\<lambda>f. is_negative f \<and> is_high f) feedback (fst kv)
                  then ''high'' else ''medium'')"
      using facts(3) [OF kv] facts(4) [OF kv]
      by (simp add: r pain_row_def more_than_half_iff high_votes_def)
    show ?thesis
      using c pos comma s by (simp add: r TH)
  qed
  have "(\<forall>r\<in>set ?rows.
            pp_count r = ?occ (pp_theme r) \<and> 0 < pp_count r \<and> CHR '','' \<notin> set (pp_theme r)
            \<and> pp_severity r
                = (if pp_count r < 2 * tag_count (\<lambda>f. is_negative f \<and> is_high f) feedback (pp_theme r)
                   then ''high'' else ''medium''))
       \<and> sorted_wrt (\<lambda>a b. pp_count b \<le> pp_count a) ?rows
       \<and> distinct (map pp_theme ?rows)
       \<and> length ?rows = min 5 (card {t. 0 < ?occ t})
       \<and> (\<forall>t. 0 < ?occ t \<longrightarrow> t \<notin> pp_theme ` set ?rows \<longrightarrow> (\<forall>r\<in>set ?rows. ?occ t \<le> pp_count r))"
    using rows tab(2-5) by (intro conjI ballI) blast+
  with gp show ?thesis
    by (intro exI [of _ ?rows] conjI) blast+
qed

lemma getPainPoints_table_three_entries:
  "getPainPoints three_entries = Inr [PainPoint ''bug'' 2 ''high'']
   \<and> tag_count is_negative three_entries ''bug'' = 2
   \<and> tag_count (\<lambda>f. is_negative f \<and> is_high f) three_entries ''bug'' = 2
   \<and> tag_count is_negative three_entries ''ux'' = 0
   \<and> card {t. 0 < tag_count is_negative three_entries t} = 1"
proof -
  have hyp: "\<forall>f\<in>set three_entries. is_negative f \<longrightarrow> (\<forall>t\<in>set (tags_of f). \<not> inherited_key t)"
    by code_simp
  obtain rows where rows: "getPainPoints three_entries = Inr rows"
    and len: "length rows = min 5 (card {t. 0 < tag_count is_negative three_entries t})"
    using getPainPoints_table [OF hyp] by blast
  have "rows = [PainPoint ''bug'' 2 ''high'']"
    using rows by (simp add: getPainPoints_three_entries)
  then have "card {t. 0 < tag_count is_negative three_entries t} = 1"
    using len by simp
  moreover have "tag_count is_negative three_entries ''bug'' = 2
     \<and> tag_count (\<lambda>f. is_negative f \<and> is_high f) three_entries ''bug'' = 2
     \<and> tag_count is_negative three_entries ''ux'' = 0"
    by code_simp
  ultimately show ?thesis
    by (simp add: getPainPoints_three_entries)
qed
section \<open>The scenario of the specification\<close>

text \<open>
  Two negative high-urgency entries tagged \<open>bug\<close> and one positive low-urgency entry tagged
  \<open>ux\<close>: the alert for 2 high-urgency items and the negative-trend recommendation.
\<close>

lemma generateActionItems_three_entries:
  "generateActionItems three_entries = [HighUrgencyAlert 2, SentimentTrendingNegative]
   \<and> item_text (HighUrgencyAlert 2) = ''2 high-urgency items need immediate attention''"
proof -
  have "actionItems_by_mention three_entries = [HighUrgencyAlert 2, SentimentTrendingNegative]"
    by code_simp
  moreover have "item_text (HighUrgencyAlert 2) = ''2 high-urgency items need immediate attention''"
    by (simp add: show_nat.simps digit_char_def)
  ultimately show ?thesis
    using generateActionItems_by_mention [of three_entries] by simp
qed

section \<open>Cached insights are backed by analyzed rows\<close>

definition has_analyzed :: "FeedbackEntry list \<Rightarrow> bool" where
  "has_analyzed rows = (\<exists>f\<in>set rows. fb_sentiment f \<noteq> None)"

definition insights_backed :: "env \<Rightarrow> bool" where
  "insights_backed e = (cached_truthy (CACHE e ''insights'') \<longrightarrow> has_analyzed (DB e))"

text \<open>
  The environments the worker can be in: it starts with an empty cache over any table; every
  handler moves it on; \<open>getStats\<close> (not modelled otherwise) writes the key \<open>stats\<close>; a cached key
  may expire.
\<close>

inductive reachable :: "env \<Rightarrow> bool" where
  start: "CACHE e = (\<lambda>k. None) \<Longrightarrow> reachable e"
| submit: "reachable e \<Longrightarrow> reachable (snd (submitFeedback w body e))"
| analyze: "reachable e \<Longrightarrow> reachable (snd (analyzeFeedback w i e))"
| analyze_all: "reachable e \<Longrightarrow> reachable (snd (analyzeAllFeedback w e))"
| insights: "reachable e \<Longrightarrow> reachable (snd (getInsights e))"
| stats: "reachable e \<Longrightarrow> reachable (cache_put ''stats'' (CachedStats s) e)"
| expire: "reachable e \<Longrightarrow> reachable (cache_delete key e)"

lemma has_analyzed_db_update:
  "has_analyzed rows \<Longrightarrow> has_analyzed (db_update i a rows)"
proof -
  assume "has_analyzed rows"
  then obtain f where f: "f \<in> set rows" and s: "fb_sentiment f \<noteq> None"
    by (auto simp: has_analyzed_def)
  let ?g = "\<lambda>f. if fb_id f = i
                then f\<lparr>fb_sentiment := Some (an_sentiment a), fb_themes := Some (an_themes a),
                       fb_urgency := Some (an_urgency a)\<rparr>
                else f"
  have "?g f \<in> set (db_update i a rows)"
    unfolding db_update_def set_map using f by (rule imageI)
  moreover have "fb_sentiment (?g f) \<noteq> None"
    using s by simp
  ultimately show ?thesis
    unfolding has_analyzed_def by (rule bexI [rotated])
qed

lemma has_analyzed_append:
  "has_analyzed rows \<Longrightarrow> has_analyzed (rows @ extra)"
  by (auto simp: has_analyzed_def)

lemma run_batch_keeps:
  "CACHE (snd (run_batch w batch e)) = CACHE e
   \<and> (has_analyzed (DB e) \<longrightarrow> has_analyzed (DB (snd (run_batch w batch e))))"
proof (induction batch arbitrary: e)
  case Nil
  show ?case by simp
next
  case (Cons feedback batch)
  let ?e1 = "e\<lparr>DB := db_update (fb_id feedback) (analyzeWithAI w (fb_text feedback)) (DB e)\<rparr>"
  show ?case
  proof (cases "update_fails w (fb_id feedback)")
    case True
    then have "snd (run_batch w (feedback # batch) e) = snd (run_batch w batch e)"
      by (simp add: Let_def split: prod.splits)
    then show ?thesis
      using Cons.IH [of e] by simp
  next
    case False
    then have "snd (run_batch w (feedback # batch) e) = snd (run_batch w batch ?e1)"
      by (simp add: Let_def split: prod.splits)
    then show ?thesis
      using Cons.IH [of ?e1] by (simp add: has_analyzed_db_update)
  qed
qed

lemma batch_loop_keeps:
  "CACHE (snd (batch_loop w n rows acc e)) = CACHE e
   \<and> (has_analyzed (DB e) \<longrightarrow> has_analyzed (DB (snd (batch_loop w n rows acc e))))"
proof (induction w n rows acc e rule: batch_loop.induct)
  case (1 w batchSize results analyzed e)
  show ?case
  proof (cases "results = [] \<or> batchSize = 0")
    case True
    then show ?thesis by (simp add: batch_loop.simps)
  next
    case False
    obtain rs rejected e' where rb: "run_batch w (take batchSize results) e = ((rs, rejected), e')"
      by (metis surj_pair)
    have e': "CACHE e' = CACHE e \<and> (has_analyzed (DB e) \<longrightarrow> has_analyzed (DB e'))"
      using run_batch_keeps [of w "take batchSize results" e] rb by simp
    show ?thesis
    proof (cases rejected)
      case True
      then have "snd (batch_loop w batchSize results analyzed e) = e'"
        using False rb by (simp add: batch_loop.simps)
      then show ?thesis using e' by simp
    next
      case no: False
      have "snd (batch_loop w batchSize results analyzed e)
              = snd (batch_loop w batchSize (drop batchSize results) (analyzed @ rs) e')"
        using False rb no by (subst batch_loop.simps) simp
      moreover have "CACHE (snd (batch_loop w batchSize (drop batchSize results) (analyzed @ rs) e'))
                       = CACHE e'
          \<and> (has_analyzed (DB e') \<longrightarrow>
               has_analyzed (DB (snd (batch_loop w batchSize (drop batchSize results) (analyzed @ rs) e'))))"
        using "1.IH" [OF False rb [symmetric] refl no] .
      ultimately show ?thesis using e' by simp
    qed
  qed
qed

lemma insights_backed_submitFeedback:
  "insights_backed e \<Longrightarrow> insights_backed (snd (submitFeedback w body e))"
  by (auto simp: insights_backed_def submitFeedback_def cache_delete_def Let_def
      has_analyzed_def)

lemma insights_backed_analyzeFeedback:
  "insights_backed e \<Longrightarrow> insights_backed (snd (analyzeFeedback w i e))"
  by (auto simp: insights_backed_def analyzeFeedback_def cache_delete_def Let_def
      has_analyzed_db_update split: option.splits)

lemma insights_backed_analyzeAllFeedback:
  "insights_backed e \<Longrightarrow> insights_backed (snd (analyzeAllFeedback w e))"
proof -
  assume b: "insights_backed e"
  let ?sel = "take 50 (filter (\<lambda>f. fb_sentiment f = None) (DB e))"
  obtain r e' where bl: "batch_loop w 5 ?sel [] e = (r, e')"
    by (cases "batch_loop w 5 ?sel [] e")
  have keep: "CACHE e' = CACHE e \<and> (has_analyzed (DB e) \<longrightarrow> has_analyzed (DB e'))"
    using batch_loop_keeps [of w 5 ?sel "[]" e] bl by simp
  show ?thesis
  proof (cases r)
    case (Inl err)
    then have "snd (analyzeAllFeedback w e) = e'"
      using bl by (simp add: analyzeAllFeedback_def)
    then show ?thesis
      using b keep by (simp add: insights_backed_def)
  next
    case (Inr analyzed)
    then have "CACHE (snd (analyzeAllFeedback w e)) ''insights'' = None"
      using bl by (simp add: analyzeAllFeedback_def Let_def cache_delete_def)
    then show ?thesis
      by (simp add: insights_backed_def)
  qed
qed

lemma insights_backed_getInsights:
  "insights_backed e \<Longrightarrow> insights_backed (snd (getInsights e))"
proof -
  assume b: "insights_backed e"
  show ?thesis
  proof (cases "cached_truthy (CACHE e ''insights'') \<or> analyzed_rows (DB e) = []")
    case True
    then have "snd (getInsights e) = e"
      by (auto simp: getInsights_def)
    then show ?thesis using b by simp
  next
    case False
    then have "has_analyzed (DB e)"
      by (auto simp: analyzed_rows_Nil_iff has_analyzed_def)
    moreover have "DB (snd (getInsights e)) = DB e"
      by (simp add: getInsights_def Let_def cache_put_def split: sum.splits)
    ultimately show ?thesis
      by (simp add: insights_backed_def)
  qed
qed

lemma reachable_insights_backed: "reachable e \<Longrightarrow> insights_backed e"
proof (induction rule: reachable.induct)
  case (start e)
  then show ?case by (simp add: insights_backed_def)
next
  case (submit e w body)
  then show ?case by (simp add: insights_backed_submitFeedback)
next
  case (analyze e w i)
  then show ?case by (simp add: insights_backed_analyzeFeedback)
next
  case (analyze_all e w)
  then show ?case by (simp add: insights_backed_analyzeAllFeedback)
next
  case (insights e)
  then show ?case by (simp add: insights_backed_getInsights)
next
  case (stats e s)
  then show ?case by (simp add: insights_backed_def cache_put_def)
next
  case (expire e key)
  then show ?case by (simp add: insights_backed_def cache_delete_def)
qed

text \<open>
  C8.  In every environment the worker can reach, if the store holds no analyzed row then
  \<open>getInsights\<close> answers with the empty state \<open>{message, insights: []}\<close>, not with an \<open>Insights\<close>
  structure (zero-filled or other), and leaves store and cache as they were: none of the
  derived fields is computed or cached.
\<close>

theorem getInsights_empty_state:
  assumes "reachable e"
    and "\<forall>f\<in>set (DB e). fb_sentiment f = None"
  shows "getInsights e
           = (Inr (Response 200
                (EmptyState ''No analyzed feedback yet. Click \"Analyze All Feedback\" first.'' [])), e)"
proof -
  have "\<not> has_analyzed (DB e)"
    using assms(2) by (simp add: has_analyzed_def)
  then have "\<not> cached_truthy (CACHE e ''insights'')"
    using reachable_insights_backed [OF assms(1)] by (simp add: insights_backed_def)
  then show ?thesis
    using assms(2) by (rule getInsights_miss_empty_state)
qed

theorem getInsights_empty_state_witness:
  "reachable cold_env
   \<and> getInsights cold_env
       = (Inr (Response 200
            (EmptyState ''No analyzed feedback yet. Click \"Analyze All Feedback\" first.'' [])), cold_env)"
proof -
  have r: "reachable cold_env"
    by (rule reachable.start) (simp add: cold_env_def)
  have none: "\<forall>f\<in>set (DB cold_env). fb_sentiment f = None"
    by (simp add: cold_env_def entry_def)
  show ?thesis
    using r getInsights_empty_state [OF r none] by simp
qed

section \<open>Mentioning a tag and listing it\<close>

text \<open>
  \<open>generateActionItems\<close> and \<open>topFeatureRequests\<close> test \<open>themes?.includes(tag)\<close>, a substring
  test on the whole field.  For entries whose tags all belong to the vocabulary of the prompt
  this is the same as listing the tag.
\<close>

lemma starts_with_iff: "starts_with n s \<longleftrightarrow> (\<exists>b. s = n @ b)"
  by (induction n s rule: starts_with.induct) auto

lemma str_includes_iff: "str_includes n s \<longleftrightarrow> (\<exists>a b. s = a @ n @ b)"
proof (induction s)
  case Nil
  show ?case by auto
next
  case (Cons c cs)
  show ?case
  proof
    assume "str_includes n (c # cs)"
    then consider "starts_with n (c # cs)" | "str_includes n cs" by auto
    then show "\<exists>a b. c # cs = a @ n @ b"
    proof cases
      case 1
      then obtain b where "c # cs = n @ b" by (auto simp: starts_with_iff)
      then have "c # cs = [] @ n @ b" by simp
      then show ?thesis by blast
    next
      case 2
      then obtain a b where "cs = a @ n @ b" using Cons.IH by blast
      then have "c # cs = (c # a) @ n @ b" by simp
      then show ?thesis by blast
    qed
  next
    assume "\<exists>a b. c # cs = a @ n @ b"
    then obtain a b where ab: "c # cs = a @ n @ b" by blast
    show "str_includes n (c # cs)"
    proof (cases a)
      case Nil
      then have "starts_with n (c # cs)"
        using ab by (auto simp: starts_with_iff)
      then show ?thesis by simp
    next
      case (Cons x a')
      then have "cs = a' @ n @ b" using ab by simp
      then have "str_includes n cs" using Cons.IH by blast
      then show ?thesis by simp
    qed
  qed
qed

lemma split_on_not_Nil: "split_on sep s \<noteq> []"
  by (induction s) (auto split: list.splits)

lemma split_on_Cons:
  "c \<noteq> sep \<Longrightarrow> split_on sep (c # cs) = (c # hd (split_on sep cs)) # tl (split_on sep cs)"
  using split_on_not_Nil [of sep cs] by (cases "split_on sep cs") auto

lemma split_on_sep: "split_on sep (sep # cs) = [] # split_on sep cs"
  by simp

lemma hd_split_on: "hd (split_on sep s) = takeWhile (\<lambda>x. x \<noteq> sep) s"
proof (induction s)
  case Nil
  show ?case by simp
next
  case (Cons c cs)
  show ?case
  proof (cases "c = sep")
    case True
    then show ?thesis by (simp only: split_on_sep list.sel takeWhile.simps) simp
  next
    case False
    then show ?thesis
      using Cons.IH by (simp only: split_on_Cons [OF False] list.sel takeWhile.simps) simp
  qed
qed

lemma piece_is_part: "p \<in> set (split_on sep s) \<Longrightarrow> \<exists>a b. s = a @ p @ b"
proof (induction s arbitrary: p)
  case Nil
  then show ?case by simp
next
  case (Cons c cs)
  show ?case
  proof (cases "c = sep")
    case True
    with Cons.prems have "p = [] \<or> p \<in> set (split_on sep cs)" by simp
    then show ?thesis
    proof
      assume "p = []"
      then have "c # cs = [] @ p @ (c # cs)" by simp
      then show ?thesis by blast
    next
      assume "p \<in> set (split_on sep cs)"
      then obtain a b where "cs = a @ p @ b" using Cons.IH by blast
      then have "c # cs = (c # a) @ p @ b" by simp
      then show ?thesis by blast
    qed
  next
    case False
    from Cons.prems have "p \<in> set ((c # hd (split_on sep cs)) # tl (split_on sep cs))"
      by (simp only: split_on_Cons [OF False])
    then have "p = c # hd (split_on sep cs) \<or> p \<in> set (tl (split_on sep cs))"
      by simp
    then show ?thesis
    proof
      assume p: "p = c # hd (split_on sep cs)"
      have "cs = takeWhile (\<lambda>x. x \<noteq> sep) cs @ dropWhile (\<lambda>x. x \<noteq> sep) cs"
        by simp
      then have "c # cs = [] @ p @ dropWhile (\<lambda>x. x \<noteq> sep) cs"
        using p by (simp add: hd_split_on)
      then show ?thesis by blast
    next
      assume "p \<in> set (tl (split_on sep cs))"
      then have "p \<in> set (split_on sep cs)"
        by (rule list.set_sel(2) [rotated]) (rule split_on_not_Nil)
      then obtain a b where "cs = a @ p @ b" using Cons.IH by blast
      then have "c # cs = (c # a) @ p @ b" by simp
      then show ?thesis by blast
    qed
  qed
qed

lemma part_in_piece:
  "sep \<notin> set n \<Longrightarrow> \<exists>p\<in>set (split_on sep (a @ n @ b)). \<exists>a' b'. p = a' @ n @ b'"
proof (induction a)
  case Nil
  have "takeWhile (\<lambda>x. x \<noteq> sep) (n @ b) = n @ takeWhile (\<lambda>x. x \<noteq> sep) b"
    using Nil by (intro takeWhile_append2) auto
  then have "hd (split_on sep (n @ b)) = n @ takeWhile (\<lambda>x. x \<noteq> sep) b"
    by (simp only: hd_split_on)
  then have "hd (split_on sep (n @ b)) = [] @ n @ takeWhile (\<lambda>x. x \<noteq> sep) b"
    by simp
  moreover have "hd (split_on sep (n @ b)) \<in> set (split_on sep (n @ b))"
    by (rule hd_in_set) (rule split_on_not_Nil)
  ultimately show ?case
    by (metis append_Nil)
next
  case (Cons c a)
  then obtain p a' b' where p: "p \<in> set (split_on sep (a @ n @ b))" and n: "p = a' @ n @ b'"
    by blast
  show ?case
  proof (cases "c = sep")
    case True
    then have "p \<in> set (split_on sep ((c # a) @ n @ b))"
      using p by simp
    then show ?thesis using n by blast
  next
    case False
    show ?thesis
    proof (cases "p = hd (split_on sep (a @ n @ b))")
      case True
      have "split_on sep ((c # a) @ n @ b)
              = (c # hd (split_on sep (a @ n @ b))) # tl (split_on sep (a @ n @ b))"
        using split_on_Cons [OF False, of "a @ n @ b"] by simp
      then have "c # p \<in> set (split_on sep ((c # a) @ n @ b))"
        using True by simp
      moreover have "c # p = (c # a') @ n @ b'"
        using n by simp
      ultimately show ?thesis by blast
    next
      case ne: False
      have "p \<in> set (tl (split_on sep (a @ n @ b)))"
        using p ne split_on_not_Nil [of sep "a @ n @ b"]
        by (cases "split_on sep (a @ n @ b)") auto
      moreover have "split_on sep ((c # a) @ n @ b)
              = (c # hd (split_on sep (a @ n @ b))) # tl (split_on sep (a @ n @ b))"
        using split_on_Cons [OF False, of "a @ n @ b"] by simp
      ultimately have "p \<in> set (split_on sep ((c # a) @ n @ b))"
        by simp
      then show ?thesis using n by blast
    qed
  qed
qed

lemma trim_is_part: "\<exists>a b. p = a @ trim p @ b"
proof -
  let ?l = "dropWhile is_space p"
  have "rev ?l = takeWhile is_space (rev ?l) @ dropWhile is_space (rev ?l)"
    by simp
  then have "?l = rev (dropWhile is_space (rev ?l)) @ rev (takeWhile is_space (rev ?l))"
    by (metis rev_append rev_rev_ident)
  then have "p = takeWhile is_space p @ trim p @ rev (takeWhile is_space (rev ?l))"
    by (metis takeWhile_dropWhile_id trim_def)
  then show ?thesis by blast
qed

lemma dropWhile_keeps_part:
  assumes "n \<noteq> []" and "\<not> P (hd n)"
  shows "\<exists>a'. dropWhile P (a @ n @ b) = a' @ n @ b"
proof (cases "\<forall>x\<in>set a. P x")
  case True
  have "dropWhile P (n @ b) = n @ b"
    using assms by (cases n) auto
  moreover have "dropWhile P (a @ (n @ b)) = dropWhile P (n @ b)"
    using True by (intro dropWhile_append2) auto
  ultimately have "dropWhile P (a @ n @ b) = [] @ n @ b"
    by simp
  then show ?thesis by blast
next
  case False
  then obtain x where "x \<in> set a" and "\<not> P x" by blast
  then have "dropWhile P (a @ (n @ b)) = dropWhile P a @ (n @ b)"
    by (rule dropWhile_append1)
  then show ?thesis by blast
qed

lemma trim_keeps_part:
  assumes "n \<noteq> []" and "\<not> is_space (hd n)" and "\<not> is_space (last n)"
  shows "\<exists>a' b'. trim (a @ n @ b) = a' @ n @ b'"
proof -
  obtain a' where l: "dropWhile is_space (a @ n @ b) = a' @ n @ b"
    using dropWhile_keeps_part [where P = is_space and a = a and b = b, OF assms(1,2)] by blast
  have "rev n \<noteq> []" and "\<not> is_space (hd (rev n))"
    using assms(1,3) by (simp_all add: hd_rev)
  then obtain b' where r: "dropWhile is_space (rev b @ rev n @ rev a') = b' @ rev n @ rev a'"
    using dropWhile_keeps_part [where P = is_space and n = "rev n" and a = "rev b" and b = "rev a'"]
    by blast
  have "trim (a @ n @ b) = rev (dropWhile is_space (rev (a' @ n @ b)))"
    by (simp add: trim_def l)
  also have "\<dots> = rev (b' @ rev n @ rev a')"
    using r by simp
  also have "\<dots> = a' @ n @ rev b'"
    by simp
  finally show ?thesis by blast
qed

lemma vocabulary_shape:
  "\<forall>u\<in>set theme_vocabulary. u \<noteq> [] \<and> \<not> is_space (hd u) \<and> \<not> is_space (last u) \<and> CHR '','' \<notin> set u"
  by code_simp

lemma vocabulary_no_overlap:
  "\<forall>u\<in>set theme_vocabulary. \<forall>t\<in>set theme_vocabulary. str_includes u t \<longrightarrow> t = u"
  by code_simp

lemma mentions_iff_lists:
  assumes vocab: "\<forall>t\<in>set (tags_of f). t \<in> set theme_vocabulary"
    and tag: "tag \<in> set theme_vocabulary"
  shows "themes_includes tag f \<longleftrightarrow> tag \<in> set (tags_of f)"
proof
  assume "themes_includes tag f"
  then obtain s where s: "fb_themes f = Some s" and inc: "str_includes tag s"
    by (auto simp: themes_includes_def split: option.splits)
  have shape: "tag \<noteq> []" "\<not> is_space (hd tag)" "\<not> is_space (last tag)" "CHR '','' \<notin> set tag"
    using vocabulary_shape tag by blast+
  from inc obtain a b where "s = a @ tag @ b"
    by (auto simp: str_includes_iff)
  then have ne: "s \<noteq> []" using shape(1) by simp
  from \<open>s = a @ tag @ b\<close> obtain p a' b' where p: "p \<in> set (split_on CHR '','' s)"
    and pa: "p = a' @ tag @ b'"
    using part_in_piece [OF shape(4), of a b] by blast
  obtain a'' b'' where t: "trim p = a'' @ tag @ b''"
    using trim_keeps_part [OF shape(1-3), of a' b'] pa by blast
  have member: "trim p \<in> set (tags_of f)"
    using p s ne by (simp add: tags_of_def themeList_def)
  then have "trim p \<in> set theme_vocabulary"
    using vocab by blast
  moreover have "str_includes tag (trim p)"
    using t by (auto simp: str_includes_iff)
  ultimately have "trim p = tag"
    using vocabulary_no_overlap tag by blast
  then show "tag \<in> set (tags_of f)"
    using member by simp
next
  assume listed: "tag \<in> set (tags_of f)"
  then have "truthy (fb_themes f)"
    by (auto simp: tags_of_def split: if_splits)
  then obtain s where s: "fb_themes f = Some s"
    by (cases "fb_themes f") auto
  then have "tag \<in> trim ` set (split_on CHR '','' s)"
    using listed by (simp add: tags_of_def themeList_def split: if_splits)
  then obtain p where p: "p \<in> set (split_on CHR '','' s)" and t: "tag = trim p"
    by blast
  obtain a b where "s = a @ p @ b"
    using piece_is_part [OF p] by blast
  moreover obtain a' b' where "p = a' @ tag @ b'"
    using trim_is_part [of p] t by blast
  ultimately have "s = (a @ a') @ tag @ (b' @ b)"
    by simp
  then have "str_includes tag s"
    unfolding str_includes_iff by blast
  then show "themes_includes tag f"
    using s by (simp add: themes_includes_def)
qed

lemma mention_count_vocabulary:
  assumes "\<forall>f\<in>set feedback. \<forall>t\<in>set (tags_of f). t \<in> set theme_vocabulary"
    and "tag \<in> set theme_vocabulary"
  shows "mention_count tag feedback = length (filter (\<lambda>f. tag \<in> set (tags_of f)) feedback)"
proof -
  have "filter (themes_includes tag) feedback = filter (\<lambda>f. tag \<in> set (tags_of f)) feedback"
    using assms by (intro filter_cong refl) (simp add: mentions_iff_lists)
  then show ?thesis
    by (simp add: mention_count_def)
qed

section \<open>Submitting to the second worker\<close>

lemma submitFeedback_src_without_labels:
  assumes "truthy (sub_source body)" and "truthy (sub_text body)"
    and "sub_sentiment body = None" and "sub_themes body = None" and "sub_urgency body = None"
  shows "\<exists>row. fst (submitFeedback_src w body e) = Inr (Response 201 (EntryBody row))
      \<and> DB (snd (submitFeedback_src w body e)) = DB e @ [row]
      \<and> fb_id row \<notin> fb_id ` set (DB e)
      \<and> fb_sentiment row = None \<and> fb_themes row = None \<and> fb_urgency row = None"
  using assms fresh_id_fresh [of "DB e"]
  by (simp add: submitFeedback_src_def Let_def or_null_def cache_delete_def)

lemma submitFeedback_src_rejects:
  "\<not> truthy (sub_source body) \<or> \<not> truthy (sub_text body) \<Longrightarrow>
   submitFeedback_src w body e
     = (Inr (Response 400 (ErrorBody ''Missing required fields: source and text'')), e)"
  by (auto simp: submitFeedback_src_def)

section \<open>The range of the sentiment score\<close>

lemma bit_length_bounds:
  "0 < n \<Longrightarrow> 0 < bit_length n \<and> 2 ^ nat (bit_length n - 1) \<le> n \<and> n < 2 ^ nat (bit_length n)"
proof (induction n rule: bit_length.induct)
  case (1 n)
  show ?case
  proof (cases "n div 2 = 0")
    case True
    with "1.prems" have n: "n = 1" by presburger
    have "bit_length 1 = 1"
      by (simp add: bit_length.simps)
    then show ?thesis using n by simp
  next
    case False
    with "1.prems" have pos: "0 < n div 2" by presburger
    have bl: "bit_length n = 1 + bit_length (n div 2)"
      using "1.prems" by (subst bit_length.simps) simp
    from "1.IH" pos "1.prems"
    have ih: "0 < bit_length (n div 2)"
      "2 ^ nat (bit_length (n div 2) - 1) \<le> n div 2"
      "n div 2 < 2 ^ nat (bit_length (n div 2))"
      by simp_all
    let ?k = "nat (bit_length (n div 2) - 1)"
    have k: "nat (bit_length (n div 2)) = Suc ?k"
      using ih(1) by simp
    have "2 * 2 ^ ?k \<le> n"
      using ih(2) by presburger
    moreover have "n < 2 * 2 ^ Suc ?k"
      using ih(3) unfolding k by presburger
    ultimately show ?thesis
      using ih(1) by (simp add: bl k nat_add_distrib)
  qed
qed

lemma ilog2_le_7:
  assumes "x \<noteq> 0" and "\<bar>x\<bar> \<le> 100"
  shows "ilog2 x \<le> 7"
proof -
  obtain p q where pq: "quotient_of \<bar>x\<bar> = (p, q)"
    by (cases "quotient_of \<bar>x\<bar>")
  have q: "0 < q"
    using pq by (rule quotient_of_denom_pos)
  have x: "\<bar>x\<bar> = of_int p / of_int q"
    using pq by (rule quotient_of_div)
  have "0 < \<bar>x\<bar>" using assms(1) by simp
  then have p: "0 < p"
    using x q by (simp add: zero_less_divide_iff)
  have "of_int p \<le> (100 :: rat) * of_int q"
    using assms(2) q unfolding x by (simp add: divide_le_eq)
  then have le: "p \<le> 100 * q"
    by (metis of_int_le_iff of_int_mult of_int_numeral)
  note bp = bit_length_bounds [OF p] and bq = bit_length_bounds [OF q]
  have qb: "q < 2 ^ nat (bit_length q)" using bq by simp
  have "2 ^ nat (bit_length p - 1) \<le> p" using bp by simp
  also have "p \<le> 100 * q" by (rule le)
  also have "\<dots> < 128 * 2 ^ nat (bit_length q)" using qb q by linarith
  also have "\<dots> = 2 ^ (7 + nat (bit_length q))" by (simp add: power_add)
  finally have "nat (bit_length p - 1) < 7 + nat (bit_length q)"
    by (simp add: power_strict_increasing_iff)
  then have "bit_length p - bit_length q \<le> 7"
    using bp bq by linarith
  then show ?thesis
    by (auto simp: ilog2_def Let_def pq)
qed

lemma round_half_even_le: "m \<le> of_int k \<Longrightarrow> round_half_even m \<le> k"
proof -
  assume m: "m \<le> of_int k"
  have f: "\<lfloor>m\<rfloor> \<le> k" using m by (simp add: floor_le_iff)
  show ?thesis
  proof (cases "m = of_int \<lfloor>m\<rfloor>")
    case True
    then have "m - of_int \<lfloor>m\<rfloor> < 1 / 2" by simp
    then show ?thesis using f by (simp add: round_half_even_def Let_def)
  next
    case False
    then have "of_int \<lfloor>m\<rfloor> < m"
      using of_int_floor_le [of m] by linarith
    then have "of_int \<lfloor>m\<rfloor> < (of_int k :: rat)" using m by linarith
    then have "\<lfloor>m\<rfloor> < k" by simp
    then show ?thesis by (simp add: round_half_even_def Let_def)
  qed
qed

lemma round_half_even_ge: "of_int k \<le> m \<Longrightarrow> k \<le> round_half_even m"
proof -
  assume "of_int k \<le> m"
  then have "k \<le> \<lfloor>m\<rfloor>" by (simp add: le_floor_iff)
  then show ?thesis by (simp add: round_half_even_def Let_def)
qed

lemma fl_bounds:
  assumes "\<bar>x\<bar> \<le> 100"
  shows "x \<le> of_int B \<Longrightarrow> fl x \<le> of_int B"
    and "of_int B \<le> x \<Longrightarrow> of_int B \<le> fl x"
proof -
  show "fl x \<le> of_int B" if "x \<le> of_int B"
  proof (cases "x = 0")
    case True
    then show ?thesis using that by (simp add: fl_def)
  next
    case False
    let ?k = "nat (52 - ilog2 x)"
    have e: "ilog2 x - 52 < 0"
      using ilog2_le_7 [OF False assms] by simp
    then have u: "pow2 (ilog2 x - 52) = 1 / 2 ^ ?k"
      by (simp add: pow2_def)
    have fl: "fl x = of_int (round_half_even (x * 2 ^ ?k)) / 2 ^ ?k"
      using False by (simp add: fl_def Let_def u)
    have "x * 2 ^ ?k \<le> of_int (B * 2 ^ ?k)"
      using that by simp
    then have "round_half_even (x * 2 ^ ?k) \<le> B * 2 ^ ?k"
      by (rule round_half_even_le)
    then have "(of_int (round_half_even (x * 2 ^ ?k)) :: rat) \<le> of_int (B * 2 ^ ?k)"
      by (simp only: of_int_le_iff)
    then show ?thesis
      unfolding fl by (simp add: divide_le_eq)
  qed
  show "of_int B \<le> fl x" if "of_int B \<le> x"
  proof (cases "x = 0")
    case True
    then show ?thesis using that by (simp add: fl_def)
  next
    case False
    let ?k = "nat (52 - ilog2 x)"
    have e: "ilog2 x - 52 < 0"
      using ilog2_le_7 [OF False assms] by simp
    then have u: "pow2 (ilog2 x - 52) = 1 / 2 ^ ?k"
      by (simp add: pow2_def)
    have fl: "fl x = of_int (round_half_even (x * 2 ^ ?k)) / 2 ^ ?k"
      using False by (simp add: fl_def Let_def u)
    have "of_int (B * 2 ^ ?k) \<le> x * 2 ^ ?k"
      using that by simp
    then have "B * 2 ^ ?k \<le> round_half_even (x * 2 ^ ?k)"
      by (rule round_half_even_ge)
    then have "(of_int (B * 2 ^ ?k) :: rat) \<le> of_int (round_half_even (x * 2 ^ ?k))"
      by (simp only: of_int_le_iff)
    then show ?thesis
      unfolding fl by (simp add: le_divide_eq)
  qed
qed

lemma score_small: "score s = Some k \<Longrightarrow> \<bar>k\<bar> \<le> 1"
  by (auto simp: score_def split: option.splits if_splits)

lemma sum_scores_bounded:
  "fold (\<lambda>f sum. case sum of
                    None \<Rightarrow> None
                  | Some n \<Rightarrow> (case score (fb_sentiment f) of
                                None \<Rightarrow> None
                              | Some k \<Rightarrow> Some (n + k))) fs (Some n) = Some t
   \<Longrightarrow> \<bar>t - n\<bar> \<le> int (length fs)"
proof (induction fs arbitrary: n)
  case Nil
  then show ?case by simp
next
  case (Cons f fs)
  let ?step = "\<lambda>f sum. case sum of
                    None \<Rightarrow> None
                  | Some n \<Rightarrow> (case score (fb_sentiment f) of
                                None \<Rightarrow> None
                              | Some k \<Rightarrow> Some (n + k))"
  have none: "fold ?step gs None = None" for gs
    by (induction gs) simp_all
  obtain k where k: "score (fb_sentiment f) = Some k"
    using Cons.prems none [of fs] by (cases "score (fb_sentiment f)") auto
  then have "fold ?step fs (Some (n + k)) = Some t"
    using Cons.prems by simp
  then have "\<bar>t - (n + k)\<bar> \<le> int (length fs)"
    by (rule Cons.IH)
  then show ?case
    using score_small [OF k] by simp
qed

text \<open>
  Whenever \<open>calculateSentimentScore\<close> returns a number, it is an integer between -100 and 100.
\<close>

lemma calculateSentimentScore_range:
  assumes "calculateSentimentScore feedback = Some v"
  shows "- 100 \<le> v \<and> v \<le> 100"
proof -
  let ?step = "\<lambda>f sum. case sum of
                    None \<Rightarrow> None
                  | Some n \<Rightarrow> (case score (fb_sentiment f) of
                                None \<Rightarrow> None
                              | Some k \<Rightarrow> Some (n + k))"
  let ?len = "length feedback"
  from assms obtain t where t: "fold ?step feedback (Some 0) = Some t"
    and len: "?len \<noteq> 0"
    and v: "v = Math_round (js_mul (js_div (of_int t) (of_nat ?len)) 100)"
    by (auto simp: calculateSentimentScore_def Let_def split: option.splits if_splits)
  have "\<bar>t\<bar> \<le> int ?len"
    using sum_scores_bounded [OF t] by simp
  then have tb: "\<bar>of_int t :: rat\<bar> \<le> of_nat ?len"
    by (metis of_int_abs of_int_le_iff of_int_of_nat_eq)
  let ?x = "(of_int t :: rat) / of_nat ?len"
  have pos: "(0 :: rat) < of_nat ?len" using len by simp
  have x: "- 1 \<le> ?x" "?x \<le> 1"
    using tb pos by (simp_all add: le_divide_eq divide_le_eq abs_le_iff)
  then have x100: "\<bar>?x\<bar> \<le> 100" by simp
  let ?y = "fl ?x"
  have y: "- 1 \<le> ?y" "?y \<le> 1"
    using fl_bounds(2) [OF x100, of "- 1"] fl_bounds(1) [OF x100, of 1] x by simp_all
  then have y100: "\<bar>?y * 100\<bar> \<le> 100" by (simp add: abs_le_iff)
  let ?z = "fl (?y * 100)"
  have z: "- 100 \<le> ?z" "?z \<le> 100"
    using fl_bounds(2) [OF y100, of "- 100"] fl_bounds(1) [OF y100, of 100] y by simp_all
  have "v = \<lfloor>?z + 1 / 2\<rfloor>"
    by (simp add: v Math_round_def js_mul_def js_div_def)
  moreover have "- 100 \<le> \<lfloor>?z + 1 / 2\<rfloor>"
    using z(1) by (simp add: le_floor_iff)
  moreover have "\<lfloor>?z + 1 / 2\<rfloor> \<le> 100"
    using z(2) by (simp add: floor_le_iff)
  ultimately show ?thesis by simp
qed

section \<open>The ratio test in double precision\<close>

text \<open>
  \<open>ratio_below_half\<close> compares the exact quotient with one half.  The double-precision quotient
  of two counts, the divisor being at most \<open>2^53\<close>, is below 0.5 exactly when the exact quotient
  is; the same holds for \<open>n > c / 2\<close>, halving being exact.
\<close>

lemma pow2_pos: "0 < pow2 e"
  by (simp add: pow2_def)

lemma pow2_ge_half: "- 1 \<le> e \<Longrightarrow> 1 / 2 \<le> pow2 e"
proof -
  assume "- 1 \<le> e"
  then consider "e = - 1" | "0 \<le> e" by linarith
  then show ?thesis
  proof cases
    case 1
    then show ?thesis by (simp add: pow2_def)
  next
    case 2
    have "(1 :: rat) \<le> 2 ^ nat e" by simp
    then have "(1 :: rat) / 2 \<le> 2 ^ nat e" by linarith
    then show ?thesis using 2 by (simp only: pow2_def if_True)
  qed
qed

lemma ilog2_lower:
  assumes "x \<noteq> 0"
  shows "pow2 (ilog2 x) \<le> \<bar>x\<bar>"
proof -
  obtain p q where pq: "quotient_of \<bar>x\<bar> = (p, q)"
    by (cases "quotient_of \<bar>x\<bar>")
  have q: "0 < q"
    using pq by (rule quotient_of_denom_pos)
  have x: "\<bar>x\<bar> = of_int p / of_int q"
    using pq by (rule quotient_of_div)
  have "0 < \<bar>x\<bar>" using assms by simp
  then have p: "0 < p"
    using x q by (simp add: zero_less_divide_iff)
  note bp = bit_length_bounds [OF p] and bq = bit_length_bounds [OF q]
  let ?e = "bit_length p - bit_length q"
  have low: "pow2 (?e - 1) \<le> \<bar>x\<bar>"
  proof -
    let ?a = "nat (bit_length p - 1)" and ?b = "nat (bit_length q)"
    have pa: "(2 :: rat) ^ ?a \<le> of_int p"
      using bp by (metis of_int_le_iff of_int_numeral of_int_power)
    have qb: "(of_int q :: rat) \<le> 2 ^ ?b"
      using bq by (metis less_imp_le of_int_le_iff of_int_numeral of_int_power)
    have qpos: "(0 :: rat) < of_int q" using q by simp
    have "(2 :: rat) ^ ?a / 2 ^ ?b \<le> of_int p / of_int q"
      using pa qb qpos p by (intro frac_le) simp_all
    moreover have "pow2 (?e - 1) = (2 :: rat) ^ ?a / 2 ^ ?b"
    proof (cases "0 \<le> ?e - 1")
      case True
      then have "?a = nat (?e - 1) + ?b"
        using bp bq by linarith
      then show ?thesis
        using True by (simp add: pow2_def power_add)
    next
      case False
      then have "?b = nat (- (?e - 1)) + ?a"
        using bp bq by linarith
      then show ?thesis
        using False by (simp add: pow2_def power_add)
    qed
    ultimately show ?thesis by (simp add: x)
  qed
  show ?thesis
  proof (cases "pow2 ?e \<le> \<bar>x\<bar>")
    case True
    then show ?thesis by (simp add: ilog2_def Let_def pq)
  next
    case False
    then show ?thesis using low by (simp add: ilog2_def Let_def pq)
  qed
qed

lemma fl_unfold:
  assumes "x \<noteq> 0" and "ilog2 x \<le> 52"
  shows "fl x = of_int (round_half_even (x * 2 ^ nat (52 - ilog2 x))) / 2 ^ nat (52 - ilog2 x)"
proof (cases "ilog2 x = 52")
  case True
  then show ?thesis using assms(1) by (simp add: fl_def Let_def pow2_def)
next
  case False
  then have "ilog2 x - 52 < 0" using assms(2) by simp
  then have "pow2 (ilog2 x - 52) = 1 / 2 ^ nat (52 - ilog2 x)"
    by (simp add: pow2_def)
  then show ?thesis using assms(1) by (simp add: fl_def Let_def)
qed

lemma fl_le_dyadic:
  assumes "x \<noteq> 0" and "ilog2 x \<le> 52 - int j" and "x \<le> of_int N / 2 ^ j"
  shows "fl x \<le> of_int N / 2 ^ j"
proof -
  let ?k = "nat (52 - ilog2 x)"
  have jk: "j \<le> ?k" using assms(2) by linarith
  have fl: "fl x = of_int (round_half_even (x * 2 ^ ?k)) / 2 ^ ?k"
    using assms(1,2) by (intro fl_unfold) simp_all
  have split: "(2 :: rat) ^ ?k = 2 ^ (?k - j) * 2 ^ j"
    using jk by (simp flip: power_add)
  have "x * 2 ^ j \<le> of_int N"
    using assms(3) by (simp add: le_divide_eq)
  then have "x * 2 ^ j * 2 ^ (?k - j) \<le> of_int N * 2 ^ (?k - j)"
    by (intro mult_right_mono) simp_all
  then have "x * 2 ^ ?k \<le> of_int (N * 2 ^ (?k - j))"
    by (simp add: split mult_ac)
  then have "round_half_even (x * 2 ^ ?k) \<le> N * 2 ^ (?k - j)"
    by (rule round_half_even_le)
  then have "(of_int (round_half_even (x * 2 ^ ?k)) :: rat) \<le> of_int (N * 2 ^ (?k - j))"
    by (simp only: of_int_le_iff)
  then have "fl x \<le> of_int (N * 2 ^ (?k - j)) / 2 ^ ?k"
    unfolding fl by (intro divide_right_mono) simp_all
  also have "\<dots> = of_int N / 2 ^ j"
    by (simp add: split)
  finally show ?thesis .
qed

lemma fl_ge_dyadic:
  assumes "x \<noteq> 0" and "ilog2 x \<le> 52 - int j" and "of_int N / 2 ^ j \<le> x"
  shows "of_int N / 2 ^ j \<le> fl x"
proof -
  let ?k = "nat (52 - ilog2 x)"
  have jk: "j \<le> ?k" using assms(2) by linarith
  have fl: "fl x = of_int (round_half_even (x * 2 ^ ?k)) / 2 ^ ?k"
    using assms(1,2) by (intro fl_unfold) simp_all
  have split: "(2 :: rat) ^ ?k = 2 ^ (?k - j) * 2 ^ j"
    using jk by (simp flip: power_add)
  have "of_int N \<le> x * 2 ^ j"
    using assms(3) by (simp add: divide_le_eq)
  then have "of_int N * 2 ^ (?k - j) \<le> x * 2 ^ j * 2 ^ (?k - j)"
    by (intro mult_right_mono) simp_all
  then have "of_int (N * 2 ^ (?k - j)) \<le> x * 2 ^ ?k"
    by (simp add: split mult_ac)
  then have "N * 2 ^ (?k - j) \<le> round_half_even (x * 2 ^ ?k)"
    by (rule round_half_even_ge)
  then have "(of_int (N * 2 ^ (?k - j)) :: rat) \<le> of_int (round_half_even (x * 2 ^ ?k))"
    by (simp only: of_int_le_iff)
  then have "of_int (N * 2 ^ (?k - j)) / 2 ^ ?k \<le> fl x"
    unfolding fl by (intro divide_right_mono) simp_all
  moreover have "of_int (N * 2 ^ (?k - j)) / 2 ^ ?k = (of_int N :: rat) / 2 ^ j"
    by (simp add: split)
  ultimately show ?thesis by simp
qed

lemma js_div_below_half:
  assumes "den \<noteq> 0" and "num \<le> den" and "den \<le> 2 ^ 53"
  shows "js_div (of_nat num) (of_nat den) < 1 / 2 \<longleftrightarrow> ratio_below_half num den"
proof -
  let ?x = "(of_nat num :: rat) / of_nat den"
  have pos: "(0 :: rat) < of_nat den" using assms(1) by simp
  have x1: "0 \<le> ?x" "?x \<le> 1"
    using assms(2) pos by (simp_all add: divide_le_eq)
  show ?thesis
  proof (cases "2 * num < den")
    case True
    have "fl ?x < 1 / 2"
    proof (cases "?x = 0")
      case True
      then show ?thesis by (simp add: fl_def)
    next
      case False
      have xh: "?x < 1 / 2"
        using True pos by (simp add: divide_less_eq)
      have ax: "\<bar>?x\<bar> = ?x"
        using x1(1) by (rule abs_of_nonneg)
      have "pow2 (ilog2 ?x) \<le> ?x"
        using ilog2_lower [OF False] unfolding ax .
      then have "pow2 (ilog2 ?x) < 1 / 2"
        using xh by (rule le_less_trans)
      then have e: "ilog2 ?x \<le> - 2"
        using pow2_ge_half [of "ilog2 ?x"] by linarith
      have "2 * num + 1 \<le> den" using True by simp
      then have "(of_nat (2 * num + 1) :: rat) \<le> of_nat den"
        by (simp only: of_nat_le_iff)
      then have "(2 * of_nat num + 1 :: rat) \<le> of_nat den"
        by simp
      moreover have "(of_nat den :: rat) \<le> of_nat (2 ^ 53)"
        using assms(3) by (simp only: of_nat_le_iff)
      then have "(of_nat den :: rat) \<le> 2 ^ 53"
        by simp
      ultimately have h: "(2 * of_nat num + 1 :: rat) \<le> of_nat den" "(of_nat den :: rat) \<le> 2 ^ 53"
        by simp_all
      have a: "?x \<le> 1 / 2 - 1 / (2 * of_nat den)"
        using h(1) pos by (simp add: field_simps)
      have "(2 * of_nat den :: rat) \<le> 2 ^ 54"
        using h(2) by simp
      then have b: "1 / (2 ^ 54 :: rat) \<le> 1 / (2 * of_nat den)"
        using pos by (intro divide_left_mono) simp_all
      have c: "(of_int (2 ^ 53 - 1) :: rat) / 2 ^ 54 = 1 / 2 - 1 / 2 ^ 54"
        by simp
      have "?x \<le> of_int (2 ^ 53 - 1) / 2 ^ 54"
        unfolding c using a b by linarith
      then have "?x \<le> of_int (2 ^ 53 - 1) / 2 ^ (54::nat)" .
      moreover have "ilog2 ?x \<le> 52 - int 54"
        using e by simp
      ultimately have "fl ?x \<le> of_int (2 ^ 53 - 1) / 2 ^ (54::nat)"
        by (rule fl_le_dyadic [OF False, rotated])
      also have "\<dots> < 1 / 2"
        unfolding c by simp
      finally show ?thesis .
    qed
    then show ?thesis
      using True assms(1) by (simp add: js_div_def ratio_below_half_iff)
  next
    case False
    then have "den \<le> 2 * num" by simp
    then have "(of_nat den :: rat) \<le> of_nat (2 * num)"
      by (simp only: of_nat_le_iff)
    then have "(of_nat den :: rat) \<le> 2 * of_nat num"
      by simp
    then have xh: "of_int 1 / 2 ^ 1 \<le> ?x"
      using pos by (simp add: le_divide_eq)
    have nz: "?x \<noteq> 0"
    proof
      assume z: "?x = 0"
      show False using xh unfolding z by simp
    qed
    have "\<bar>?x\<bar> \<le> 100"
      using x1 by simp
    then have "ilog2 ?x \<le> 7"
      by (rule ilog2_le_7 [OF nz])
    then have "ilog2 ?x \<le> 52 - int 1"
      by simp
    then have "of_int 1 / 2 ^ 1 \<le> fl ?x"
      using xh by (rule fl_ge_dyadic [OF nz])
    then have "\<not> fl ?x < 1 / 2"
      by simp
    then show ?thesis
      using False by (simp add: js_div_def ratio_below_half_iff)
  qed
qed

lemma round_half_even_of_int: "round_half_even (of_int n) = n"
  by (simp add: round_half_even_def)

lemma js_div_two_exact:
  assumes "c < 2 ^ 53"
  shows "js_div (of_nat c) 2 = of_nat c / 2"
proof (cases "c = 0")
  case True
  then show ?thesis by (simp add: js_div_def fl_def)
next
  case False
  let ?x = "(of_nat c :: rat) / 2"
  have nz: "?x \<noteq> 0" using False by simp
  have "(of_nat c :: rat) < of_nat (2 ^ 53)"
    using assms by (simp only: of_nat_less_iff)
  then have small: "\<bar>?x\<bar> < 2 ^ 52" by simp
  have e: "ilog2 ?x \<le> 51"
  proof (rule ccontr)
    assume "\<not> ilog2 ?x \<le> 51"
    then have big: "52 \<le> nat (ilog2 ?x)" and nonneg: "0 \<le> ilog2 ?x" by simp_all
    have "(2 :: rat) ^ 52 \<le> 2 ^ nat (ilog2 ?x)"
      using big by (intro power_increasing) simp_all
    also have "\<dots> = pow2 (ilog2 ?x)"
      using nonneg by (simp add: pow2_def)
    also have "\<dots> \<le> \<bar>?x\<bar>"
      by (rule ilog2_lower [OF nz])
    finally show False using small by simp
  qed
  let ?k = "nat (52 - ilog2 ?x)"
  have k: "?k = Suc (?k - 1)" using e by simp
  have fl: "fl ?x = of_int (round_half_even (?x * 2 ^ ?k)) / 2 ^ ?k"
    using e by (intro fl_unfold [OF nz]) simp
  have "?x * 2 ^ ?k = of_nat c * 2 ^ (?k - 1)"
    by (subst k) simp
  also have "\<dots> = of_int (int c * 2 ^ (?k - 1))"
    by simp
  finally have "round_half_even (?x * 2 ^ ?k) = int c * 2 ^ (?k - 1)"
    by (simp only: round_half_even_of_int)
  then have "fl ?x = of_int (int c * 2 ^ (?k - 1)) / 2 ^ ?k"
    by (simp only: fl)
  also have "\<dots> = of_nat c * 2 ^ (?k - 1) / 2 ^ Suc (?k - 1)"
    using k by simp
  also have "\<dots> = ?x"
    by simp
  finally show ?thesis by (simp add: js_div_def)
qed

lemma more_than_half_double:
  "c < 2 ^ 53 \<Longrightarrow> more_than_half n c \<longleftrightarrow> js_div (of_nat c) 2 < of_nat n"
  by (simp add: more_than_half_def js_div_two_exact)

section \<open>Action items: entries tagged with a theme\<close>

text \<open>
  The rules as the specification words them.  An entry is tagged with a theme when the theme
  is one of the tags it lists; \<open>listed_count tag\<close> is the number of entries tagged \<open>tag\<close>.
\<close>

definition listed_count :: "string \<Rightarrow> FeedbackEntry list \<Rightarrow> nat" where
  "listed_count tag feedback = length (filter (\<lambda>f. tag \<in> set (tags_of f)) feedback)"

definition rule_items :: "FeedbackEntry list \<Rightarrow> action_item list" where
  "rule_items feedback =
     (if high_urgency_count feedback > 0 then [HighUrgencyAlert (high_urgency_count feedback)] else [])
   @ (if listed_count ''bug'' feedback > 5 then [StabilityCapacity (listed_count ''bug'' feedback)] else [])
   @ (if listed_count ''feature-request'' feedback > 3
      then [Prioritization (listed_count ''feature-request'' feedback)] else [])
   @ (if 2 * non_negative_count feedback < length feedback then [SentimentTrendingNegative] else [])
   @ (if listed_count ''performance'' feedback > 2
      then [PerformanceAudit (listed_count ''performance'' feedback)] else [])
   @ (if listed_count ''documentation'' feedback > 2
      then [DocsGap (listed_count ''documentation'' feedback)] else [])"

definition actionItems_spec :: "FeedbackEntry list \<Rightarrow> action_item list" where
  "actionItems_spec feedback =
     (if rule_items feedback = [] then [NoCriticalIssues] else rule_items feedback)"

text \<open>
  When every tag of every entry belongs to the vocabulary of the prompt, an entry mentions a
  theme exactly when it is tagged with it, and the source follows the rules.
\<close>

lemma generateActionItems_vocabulary:
  assumes "\<forall>f\<in>set feedback. \<forall>t\<in>set (tags_of f). t \<in> set theme_vocabulary"
  shows "generateActionItems feedback = actionItems_spec feedback"
proof -
  have m: "mention_count tag feedback = listed_count tag feedback"
    if "tag \<in> set theme_vocabulary" for tag
    using mention_count_vocabulary [OF assms that] by (simp add: listed_count_def)
  have "mention_items feedback = rule_items feedback"
    unfolding mention_items_def rule_items_def
    by (simp add: m theme_vocabulary_def)
  then show ?thesis
    by (simp add: generateActionItems_by_mention actionItems_by_mention_def actionItems_spec_def)
qed

lemma generateActionItems_vocabulary_three_entries:
  "generateActionItems three_entries = actionItems_spec three_entries"
proof -
  have "\<forall>f\<in>set three_entries. \<forall>t\<in>set (tags_of f). t \<in> set theme_vocabulary"
    by code_simp
  then show ?thesis
    by (rule generateActionItems_vocabulary)
qed

text \<open>
  Six positive entries of low urgency whose themes are \<open>debug\<close>, a text the label extraction
  stores as it finds it.
\<close>

definition six_debug_entries :: "FeedbackEntry list" where
  "six_debug_entries =
     map (\<lambda>i. entry i ''the debug view is great'' (Some ''positive'') (Some ''debug'') (Some ''low''))
       [1, 2, 3, 4, 5, 6]"

text \<open>
  C4.  No entry of \<open>six_debug_entries\<close> is tagged \<open>bug\<close>, so no rule fires and the rules give the
  single affirmation.  The source tests \<open>themes?.includes('bug')\<close>, which holds for the themes
  \<open>debug\<close>: it counts 6 bug reports and returns the stability recommendation.
\<close>

theorem generateActionItems_counts_substrings:
  "generateActionItems six_debug_entries = [StabilityCapacity 6]
   \<and> listed_count ''bug'' six_debug_entries = 0
   \<and> actionItems_spec six_debug_entries = [NoCriticalIssues]"
  by code_simp

section \<open>Tags that name a property of \<open>Object.prototype\<close>\<close>

text \<open>
  Both tables are tallied in a plain object, which inherits \<open>constructor\<close> and its siblings
  from \<open>Object.prototype\<close>.  For such a tag \<open>themes[theme]\<close> is truthy before any entry has
  been counted, so the tag gets no property of its own.
\<close>

definition constructor_pain_entries :: "FeedbackEntry list" where
  "constructor_pain_entries =
     [entry 1 ''the constructor crashes'' (Some ''negative'') (Some ''bug, constructor'') (Some ''high'')]"

definition constructor_theme_entries :: "FeedbackEntry list" where
  "constructor_theme_entries =
     [entry 1 ''the new constructor is neat'' (Some ''positive'') (Some ''bug, constructor'') (Some ''low'')]"

text \<open>
  C6.  One negative entry of urgency \<open>high\<close> listing the tags \<open>bug\<close> and \<open>constructor\<close>: the
  negative entries list \<open>constructor\<close> once, so the table has a row for it; \<open>getPainPoints\<close>
  throws a \<open>TypeError\<close> at \<open>themes[theme].urgency.push\<close> instead, and so does the request for
  the insights.
\<close>

theorem getPainPoints_throws_on_inherited_tag:
  "getPainPoints constructor_pain_entries = Inl TypeError
   \<and> tag_count is_negative constructor_pain_entries ''bug'' = 1
   \<and> tag_count is_negative constructor_pain_entries ''constructor'' = 1
   \<and> fst (getInsights \<lparr> DB = constructor_pain_entries, CACHE = (\<lambda>k. None) \<rparr>) = Inl TypeError"
  by code_simp

text \<open>
  C7.  One positive entry listing the tags \<open>bug\<close> and \<open>constructor\<close>: the entries list each tag
  once, so the table has two rows; \<open>getThemeBreakdown\<close> returns the row of \<open>bug\<close> alone.
\<close>

theorem getThemeBreakdown_drops_inherited_tag:
  "getThemeBreakdown constructor_theme_entries = [ThemeRow ''bug'' 1 ''positive'']
   \<and> tag_count (\<lambda>f. True) constructor_theme_entries ''bug'' = 1
   \<and> tag_count (\<lambda>f. True) constructor_theme_entries ''constructor'' = 1"
  by code_simp

section \<open>Submitting feedback: the labels of the new entry\<close>

definition labelled_body :: submission_src where
  "labelled_body =
     \<lparr> sub_source = Some ''Email'', sub_text = Some ''x'', sub_sentiment = Some ''positive'',
       sub_themes = None, sub_urgency = Some '''' \<rparr>"

text \<open>
  C9, as stated, fails for the second worker: a body with source, text and a sentiment is
  answered with an entry whose sentiment is the one of the body, not null.
\<close>

theorem submitFeedback_src_binds_labels:
  "fst (submitFeedback_src (failing_world []) labelled_body two_row_env)
     = Inr (Response 201 (EntryBody
         \<lparr> fb_id = 3, fb_source = ''Email'', fb_text = ''x'', fb_sentiment = Some ''positive'',
           fb_themes = None, fb_urgency = None, fb_created_at = ''2026-01-05 10:00:00'' \<rparr>))"
  by (simp add: submitFeedback_src_def labelled_body_def two_row_env_def entry_def failing_world_def
      fresh_id_def or_null_def Let_def)

text \<open>
  C9, amended.  In both workers a submission whose source or text is empty (or missing) is
  answered 400 and leaves the environment, hence the store, as it was; a submission with both
  fields non-empty is answered 201 with the inserted row, whose id is not the id of any row
  already stored, and the store is the old store with that row appended.  The three labels of
  the row are null in index.ts; in the second worker each label is the one the body carries,
  and null when the body carries none or an empty one.
\<close>

theorem submitFeedback_both_workers:
  "(\<not> truthy (sub_source body) \<or> \<not> truthy (sub_text body) \<longrightarrow>
      submitFeedback w body e
        = (Inr (Response 400 (ErrorBody ''Missing required fields: source and text'')), e))
   \<and> (\<not> truthy (sub_source body') \<or> \<not> truthy (sub_text body') \<longrightarrow>
      submitFeedback_src w body' e
        = (Inr (Response 400 (ErrorBody ''Missing required fields: source and text'')), e))
   \<and> (truthy (sub_source body) \<and> truthy (sub_text body) \<longrightarrow>
        (\<exists>row. fst (submitFeedback w body e) = Inr (Response 201 (EntryBody row))
           \<and> DB (snd (submitFeedback w body e)) = DB e @ [row]
           \<and> fb_id row \<notin> fb_id ` set (DB e)
           \<and> Some (fb_source row) = sub_source body \<and> Some (fb_text row) = sub_text body
           \<and> fb_sentiment row = None \<and> fb_themes row = None \<and> fb_urgency row = None))
   \<and> (truthy (sub_source body') \<and> truthy (sub_text body') \<longrightarrow>
        (\<exists>row. fst (submitFeedback_src w body' e) = Inr (Response 201 (EntryBody row))
           \<and> DB (snd (submitFeedback_src w body' e)) = DB e @ [row]
           \<and> fb_id row \<notin> fb_id ` set (DB e)
           \<and> Some (fb_source row) = sub_source body' \<and> Some (fb_text row) = sub_text body'
           \<and> fb_sentiment row = (if truthy (sub_sentiment body') then sub_sentiment body' else None)
           \<and> fb_themes row = (if truthy (sub_themes body') then sub_themes body' else None)
           \<and> fb_urgency row = (if truthy (sub_urgency body') then sub_urgency body' else None)))"
proof (intro conjI impI)
  assume "\<not> truthy (sub_source body) \<or> \<not> truthy (sub_text body)"
  then show "submitFeedback w body e
        = (Inr (Response 400 (ErrorBody ''Missing required fields: source and text'')), e)"
    by (auto simp: submitFeedback_def)
next
  assume "\<not> truthy (sub_source body') \<or> \<not> truthy (sub_text body')"
  then show "submitFeedback_src w body' e
        = (Inr (Response 400 (ErrorBody ''Missing required fields: source and text'')), e)"
    by (auto simp: submitFeedback_src_def)
next
  assume "truthy (sub_source body) \<and> truthy (sub_text body)"
  then show "\<exists>row. fst (submitFeedback w body e) = Inr (Response 201 (EntryBody row))
           \<and> DB (snd (submitFeedback w body e)) = DB e @ [row]
           \<and> fb_id row \<notin> fb_id ` set (DB e)
           \<and> Some (fb_source row) = sub_source body \<and> Some (fb_text row) = sub_text body
           \<and> fb_sentiment row = None \<and> fb_themes row = None \<and> fb_urgency row = None"
    using submitFeedback_index_ts [of body w e] by simp
next
  assume ok: "truthy (sub_source body') \<and> truthy (sub_text body')"
  then obtain s t where st: "sub_source body' = Some s" "sub_text body' = Some t"
    by (cases "sub_source body'"; cases "sub_text body'") auto
  let ?row = "\<lparr> fb_id = fresh_id (DB e), fb_source = s, fb_text = t,
                 fb_sentiment = or_null (sub_sentiment body'), fb_themes = or_null (sub_themes body'),
                 fb_urgency = or_null (sub_urgency body'), fb_created_at = now w \<rparr>"
  have "fst (submitFeedback_src w body' e) = Inr (Response 201 (EntryBody ?row))"
    using ok st by (simp add: submitFeedback_src_def Let_def)
  moreover have "DB (snd (submitFeedback_src w body' e)) = DB e @ [?row]"
    using ok st by (simp add: submitFeedback_src_def Let_def cache_delete_def)
  moreover have "fb_id ?row \<notin> fb_id ` set (DB e)"
    using fresh_id_fresh [of "DB e"] by simp
  ultimately show "\<exists>row. fst (submitFeedback_src w body' e) = Inr (Response 201 (EntryBody row))
           \<and> DB (snd (submitFeedback_src w body' e)) = DB e @ [row]
           \<and> fb_id row \<notin> fb_id ` set (DB e)
           \<and> Some (fb_source row) = sub_source body' \<and> Some (fb_text row) = sub_text body'
           \<and> fb_sentiment row = (if truthy (sub_sentiment body') then sub_sentiment body' else None)
           \<and> fb_themes row = (if truthy (sub_themes body') then sub_themes body' else None)
           \<and> fb_urgency row = (if truthy (sub_urgency body') then sub_urgency body' else None)"
    using st by (intro exI [of _ ?row]) (simp add: or_null_def)
qed

theorem submitFeedback_both_workers_witness:
  "submitFeedback (failing_world []) \<lparr>sub_source = Some '''', sub_text = Some ''x''\<rparr> two_row_env
     = (Inr (Response 400 (ErrorBody ''Missing required fields: source and text'')), two_row_env)
   \<and> submitFeedback_src (failing_world []) (labelled_body\<lparr>sub_text := None\<rparr>) two_row_env
     = (Inr (Response 400 (ErrorBody ''Missing required fields: source and text'')), two_row_env)
   \<and> (\<exists>row. fst (submitFeedback (failing_world []) \<lparr>sub_source = Some ''Email'', sub_text = Some ''x''\<rparr> two_row_env)
              = Inr (Response 201 (EntryBody row))
         \<and> fb_id row \<notin> {1, 2} \<and> fb_sentiment row = None \<and> fb_themes row = None \<and> fb_urgency row = None)
   \<and> (\<exists>row. fst (submitFeedback_src (failing_world []) labelled_body two_row_env)
              = Inr (Response 201 (EntryBody row))
         \<and> fb_id row \<notin> {1, 2} \<and> fb_sentiment row = Some ''positive'' \<and> fb_themes row = None
         \<and> fb_urgency row = None)"
proof -
  have bad: "\<not> truthy (sub_source \<lparr>sub_source = Some '''', sub_text = Some ''x''\<rparr>)"
    by simp
  have bad': "\<not> truthy (sub_text (labelled_body\<lparr>sub_text := None\<rparr>))"
    by simp
  have good: "truthy (sub_source \<lparr>sub_source = Some ''Email'', sub_text = Some ''x''\<rparr>)
              \<and> truthy (sub_text \<lparr>sub_source = Some ''Email'', sub_text = Some ''x''\<rparr>)"
    by simp
  have good': "truthy (sub_source labelled_body) \<and> truthy (sub_text labelled_body)"
    by (simp add: labelled_body_def)
  have labels: "sub_sentiment labelled_body = Some ''positive'' \<and> sub_themes labelled_body = None
                \<and> sub_urgency labelled_body = Some ''''"
    by (simp add: labelled_body_def)
  have ids: "fb_id ` set (DB two_row_env) = {1, 2}"
    by (auto simp: two_row_env_def entry_def)
  show ?thesis
    using submitFeedback_both_workers
            [where body = "\<lparr>sub_source = Some '''', sub_text = Some ''x''\<rparr>"
               and body' = "labelled_body\<lparr>sub_text := None\<rparr>"
               and w = "failing_world []" and e = two_row_env]
          submitFeedback_both_workers
            [where body = "\<lparr>sub_source = Some ''Email'', sub_text = Some ''x''\<rparr>"
               and body' = labelled_body and w = "failing_world []" and e = two_row_env]
          bad bad' good good' labels ids
    by auto
qed

section \<open>Label extraction: what the two workers validate\<close>






















text \<open>An answer whose themes line is empty.\<close>

definition empty_themes_answer :: string where
  "empty_themes_answer = ''THEMES:'' @ [line_feed] @ ''URGENCY: High''"



lemma analyzeWithAI_empty_themes_line:
  "analyzeWithAI (answering_world empty_themes_answer) ''great product''
     = Analysis ''neutral'' ''URGENCY: High'' ''high''"
  by code_simp

lemma analyzeWithAI_src_mixed:
  "analyzeWithAI_src (answering_world (''Sentiment: mixed'' @ [line_feed] @ ''Themes: banana''))
      ''great product''
     = Inr (Analysis ''neutral'' ''banana'' ''normal'')"
  by code_simp

section \<open>Themes the worker stores\<close>

text \<open>
  The themes of the inputs above reach the store through the label extraction: an answer of
  the model with such a themes line is stored as it is, and the next request for the insights
  works on it.
\<close>

definition constructor_answer :: string where
  "constructor_answer =
     ''SENTIMENT: negative'' @ [line_feed] @ ''THEMES: bug, constructor'' @ [line_feed] @ ''URGENCY: high''"

lemma analyzeWithAI_constructor_answer:
  "analyzeWithAI (answering_world constructor_answer) ''the constructor crashes''
     = Analysis ''negative'' ''bug, constructor'' ''high''"
  by code_simp

lemma analyzeWithAI_debug_answer:
  "analyzeWithAI (answering_world ''THEMES: debug'') ''the debug view is great''
     = Analysis ''neutral'' ''debug'' ''medium''"
  by code_simp

lemma getInsights_after_constructor_answer:
  "fst (getInsights (snd (analyzeFeedback (answering_world constructor_answer) 1
          \<lparr> DB = [entry 1 ''the constructor crashes'' None None None], CACHE = (\<lambda>k. None) \<rparr>)))
     = Inl TypeError"
  by code_simp

end
